theory Spec2Isabelle
  imports Complex_Main "HOL-Library.Sublist"
begin

section \<open>Boards, markers and exceptions\<close>

text \<open>
  The module \<^verbatim>\<open>viergewinnt.py\<close> keeps a board as a numpy array of 6 rows and 7 columns
  (\<^verbatim>\<open>np.zeros((6, 7))\<close>), row 0 on top. A cell holds one of \<^verbatim>\<open>vals = [EMPTY, 1, -1]\<close>. The
  board is modelled as the list of its rows; the cell values are integers.
\<close>

definition EMPTY :: int where
  "EMPTY = 0"

definition NO_MOVE :: int where
  "NO_MOVE = - 999"

text \<open>
  The two exception classes of the module, and the exceptions Python and numpy raise by
  themselves at the places modelled below.
\<close>

datatype error =
    FullBoardException
  | FullColumnException
  | IndexError
  | KeyError
  | AttributeError

type_synonym board = "int list list"

definition wf_board :: "board \<Rightarrow> bool" where
  "wf_board st = (length st = 6 \<and> list_all (\<lambda>row. length row = 7) st)"

definition ncols :: "int list list \<Rightarrow> nat" where
  "ncols m = (case m of [] \<Rightarrow> 0 | row # _ \<Rightarrow> length row)"

text \<open>\<^verbatim>\<open>state[:, column]\<close> for a column index already in range.\<close>

definition column :: "board \<Rightarrow> nat \<Rightarrow> int list" where
  "column st c = map (\<lambda>row. row ! c) st"

text \<open>\<^verbatim>\<open>np.sum(col == EMPTY)\<close>.\<close>

definition count_empty :: "int list \<Rightarrow> nat" where
  "count_empty col = length (filter (\<lambda>v. v = EMPTY) col)"

text \<open>
  numpy's reading of an integer index along an axis of length \<open>n\<close>: a negative index counts
  from the end, anything outside \<open>[-n, n)\<close> raises \<^verbatim>\<open>IndexError\<close>.
\<close>

definition norm_index :: "nat \<Rightarrow> int \<Rightarrow> nat option" where
  "norm_index n i =
     (if 0 \<le> i \<and> i < int n then Some (nat i)
      else if - int n \<le> i \<and> i < 0 then Some (nat (int n + i))
      else None)"

text \<open>\<^verbatim>\<open>new_state[row, column] = v\<close> on a copy of the board.\<close>

definition set_cell :: "board \<Rightarrow> nat \<Rightarrow> nat \<Rightarrow> int \<Rightarrow> board" where
  "set_cell st r c v = st[r := (st ! r)[c := v]]"

section \<open>The game object\<close>

text \<open>
  A \<^verbatim>\<open>VierGewinnt\<close> object: the two players' names and the live board \<^verbatim>\<open>self.state\<close>.
  \<^verbatim>\<open>name2val\<close> is the dictionary the constructor fills: player 1 first, then player 2.
\<close>

record viergewinnt =
  player1 :: string
  player2 :: string
  state :: board

definition name2val :: "viergewinnt \<Rightarrow> string \<rightharpoonup> int" where
  "name2val g = (Map.empty(player1 g \<mapsto> 1))(player2 g \<mapsto> - 1)"

definition get_opponent_name :: "viergewinnt \<Rightarrow> string \<Rightarrow> string" where
  "get_opponent_name g player_name =
     (if player_name = player1 g then player2 g else player1 g)"

text \<open>The default \<^verbatim>\<open>state=None\<close> of the methods stands for the live board.\<close>

definition arg_state :: "viergewinnt \<Rightarrow> board option \<Rightarrow> board" where
  "arg_state g st_opt = (case st_opt of None \<Rightarrow> state g | Some st \<Rightarrow> st)"

subsection \<open>\<^verbatim>\<open>insert_piece\<close>\<close>

definition insert_piece :: "viergewinnt \<Rightarrow> string \<Rightarrow> int \<Rightarrow> board option \<Rightarrow> error + board" where
  "insert_piece g player_name col st_opt =
     (let st = arg_state g st_opt in
      if col = NO_MOVE then Inr st
      else
        (case norm_index (ncols st) col of
           None \<Rightarrow> Inl IndexError
         | Some c \<Rightarrow>
             if count_empty (column st c) = 0 then Inl FullColumnException
             else
               (let row = count_empty (column st c) - 1 in
                case name2val g player_name of
                  None \<Rightarrow> Inl KeyError
                | Some v \<Rightarrow> Inr (set_cell st row c v))))"

subsection \<open>\<^verbatim>\<open>check_winner\<close>\<close>

text \<open>The four masks, in the order of the list \<^verbatim>\<open>winner_positions\<close>.\<close>

definition vertical :: "int list list" where
  "vertical = [[1], [1], [1], [1]]"

definition horizontal :: "int list list" where
  "horizontal = [[1, 1, 1, 1]]"

definition diag_down_right :: "int list list" where
  "diag_down_right = [[1, 0, 0, 0], [0, 1, 0, 0], [0, 0, 1, 0], [0, 0, 0, 1]]"

definition diag_down_left :: "int list list" where
  "diag_down_left = [[0, 0, 0, 1], [0, 0, 1, 0], [0, 1, 0, 0], [1, 0, 0, 0]]"

definition winner_positions :: "int list list list" where
  "winner_positions = [vertical, horizontal, diag_down_right, diag_down_left]"

text \<open>
  \<^verbatim>\<open>scipy.signal.convolve2d(state, win_pos, mode='valid')\<close>: entry \<open>(i, j)\<close> is the sum over
  the window at \<open>(i, j)\<close> of the board times the mask flipped along both axes, for the
  windows that lie inside the board.
\<close>

definition convolve2d :: "board \<Rightarrow> int list list \<Rightarrow> int list list" where
  "convolve2d st k =
     (let kh = length k; kw = ncols k in
      map (\<lambda>i. map (\<lambda>j.
             (\<Sum>a\<leftarrow>[0..<kh]. \<Sum>b\<leftarrow>[0..<kw].
                st ! (i + a) ! (j + b) * k ! (kh - 1 - a) ! (kw - 1 - b)))
             [0..<ncols st + 1 - kw])
          [0..<length st + 1 - kh])"

text \<open>\<^verbatim>\<open>(convolved_state == v).any()\<close> and \<^verbatim>\<open>(state != EMPTY).all()\<close>.\<close>

definition any_eq :: "int list list \<Rightarrow> int \<Rightarrow> bool" where
  "any_eq m v = list_ex (list_ex (\<lambda>x. x = v)) m"

definition all_nonempty :: "board \<Rightarrow> bool" where
  "all_nonempty st = list_all (list_all (\<lambda>x. x \<noteq> EMPTY)) st"

text \<open>
  What \<^verbatim>\<open>check_winner\<close> returns: \<^verbatim>\<open>None\<close>, a player's name, or \<^verbatim>\<open>False\<close> for a draw.
\<close>

datatype winner = W_None | W_Name string | W_False

text \<open>The \<^verbatim>\<open>for win_pos in winner_positions\<close> loop, each \<^verbatim>\<open>break\<close> a result.\<close>

fun check_loop :: "viergewinnt \<Rightarrow> board \<Rightarrow> int list list list \<Rightarrow> winner" where
  "check_loop g st [] = W_None"
| "check_loop g st (win_pos # rest) =
     (let convolved_state = convolve2d st win_pos in
      if any_eq convolved_state 4 then W_Name (player1 g)
      else if any_eq convolved_state (- 4) then W_Name (player2 g)
      else if all_nonempty st then W_False
      else check_loop g st rest)"

definition check_winner :: "viergewinnt \<Rightarrow> board option \<Rightarrow> winner" where
  "check_winner g st_opt = check_loop g (arg_state g st_opt) winner_positions"

subsection \<open>\<^verbatim>\<open>get_available_moves\<close>\<close>

text \<open>
  \<^verbatim>\<open>np.arange(7)[np.sum(state == EMPTY, axis=0) > 0]\<close>, or the one-element array
  \<^verbatim>\<open>[NO_MOVE]\<close> once \<^verbatim>\<open>check_winner\<close> returns something other than \<^verbatim>\<open>None\<close>.
\<close>

definition get_available_moves :: "viergewinnt \<Rightarrow> board option \<Rightarrow> int list" where
  "get_available_moves g st_opt =
     (let st = arg_state g st_opt in
      if check_winner g (Some st) = W_None
      then filter (\<lambda>c. 0 < count_empty (column st (nat c))) [0..6]
      else [NO_MOVE])"

subsection \<open>\<^verbatim>\<open>insert_piece\<close> on array objects\<close>

text \<open>
  numpy arrays are mutable objects, and \<^verbatim>\<open>insert_piece\<close> either hands back the array it was
  given (\<^verbatim>\<open>NO_MOVE\<close>) or writes into a \<^verbatim>\<open>deepcopy\<close> of it. To speak about the array that
  was passed in, the same method is modelled once more over an object store: a list of
  boards, a reference being a position in it. \<^verbatim>\<open>deepcopy\<close> allocates a new object; the
  assignment \<^verbatim>\<open>new_state[row, column] = v\<close> updates the object it names in place. The
  caller passes the reference of the state (of the live board for \<^verbatim>\<open>state=None\<close>).
\<close>

type_synonym ref = nat
type_synonym heap = "board list"

definition deepcopy :: "heap \<Rightarrow> ref \<Rightarrow> heap \<times> ref" where
  "deepcopy h r = (h @ [h ! r], length h)"

definition insert_piece_obj ::
  "viergewinnt \<Rightarrow> heap \<Rightarrow> string \<Rightarrow> int \<Rightarrow> ref \<Rightarrow> heap \<times> (error + ref)" where
  "insert_piece_obj g h player_name col st =
     (if col = NO_MOVE then (h, Inr st)
      else
        (case norm_index (ncols (h ! st)) col of
           None \<Rightarrow> (h, Inl IndexError)
         | Some c \<Rightarrow>
             if count_empty (column (h ! st) c) = 0 then (h, Inl FullColumnException)
             else
               (let row = count_empty (column (h ! st) c) - 1;
                    (h1, new_state) = deepcopy h st
                in case name2val g player_name of
                     None \<Rightarrow> (h1, Inl KeyError)
                   | Some v \<Rightarrow>
                       (h1[new_state := set_cell (h1 ! new_state) row c v], Inr new_state))))"

section \<open>Gravity and reachable boards\<close>

text \<open>
  A column, read from the top row down, satisfies gravity when nothing below a piece is
  empty. A board satisfies it when each of its seven columns does.
\<close>

fun gravity_col :: "int list \<Rightarrow> bool" where
  "gravity_col [] = True"
| "gravity_col (v # below) =
     (if v = EMPTY then gravity_col below else EMPTY \<notin> set below)"

definition gravity :: "board \<Rightarrow> bool" where
  "gravity st = list_all (\<lambda>c. gravity_col (column st c)) [0..<7]"

definition empty_board :: board where
  "empty_board = replicate 6 (replicate 7 0)"

text \<open>
  The boards a game can reach: \<^verbatim>\<open>np.zeros((6, 7))\<close>, and whatever a call of
  \<^verbatim>\<open>insert_piece\<close> that raises nothing returns on a board reached before.
\<close>

inductive reachable :: "viergewinnt \<Rightarrow> board \<Rightarrow> bool" for g where
  start: "reachable g empty_board"
| drop: "reachable g st \<Longrightarrow> insert_piece g player_name col (Some st) = Inr st'
         \<Longrightarrow> reachable g st'"

section \<open>The agent\<close>

text \<open>
  A \<^verbatim>\<open>DeepAgent\<close>: its name, exploration factor, lookahead depth \<^verbatim>\<open>iteration\<close> and value
  model. The value model is an external estimator; \<^verbatim>\<open>calc_state_values\<close> asks it for one
  scalar per board of a batch, so it is a function from boards to numbers here.
\<close>

record deep_agent =
  name :: string
  exp_factor :: real
  iteration :: int
  value_model :: "board \<Rightarrow> real"

text \<open>
  The agent's \<^verbatim>\<open>self.game\<close> is the placeholder \<^verbatim>\<open>Game()\<close> of \<^verbatim>\<open>Player.__init__\<close> until a
  \<^verbatim>\<open>VierGewinnt\<close> adopts the agent. The placeholder's \<^verbatim>\<open>get_available_moves\<close> returns the
  empty list and it has no \<^verbatim>\<open>get_opponent_name\<close>.
\<close>

datatype game = Game | VierGewinnt viergewinnt

fun game_get_available_moves :: "game \<Rightarrow> board option \<Rightarrow> int list" where
  "game_get_available_moves Game st_opt = []"
| "game_get_available_moves (VierGewinnt g) st_opt = get_available_moves g st_opt"

subsection \<open>Results that may be an exception\<close>

definition ebind :: "error + 'a \<Rightarrow> ('a \<Rightarrow> error + 'b) \<Rightarrow> error + 'b" where
  "ebind r f = (case r of Inl e \<Rightarrow> Inl e | Inr v \<Rightarrow> f v)"

text \<open>A list comprehension whose element expression may raise: the first exception wins.\<close>

fun comprehension :: "(error + 'a) list \<Rightarrow> error + 'a list" where
  "comprehension [] = Inr []"
| "comprehension (x # xs) =
     (case x of
        Inl e \<Rightarrow> Inl e
      | Inr v \<Rightarrow> (case comprehension xs of Inl e \<Rightarrow> Inl e | Inr vs \<Rightarrow> Inr (v # vs)))"

subsection \<open>Move tags\<close>

text \<open>The f-string \<^verbatim>\<open>f'{move}'\<close> of an integer: its decimal digits, with a sign.\<close>

definition digit_chars :: string where
  "digit_chars = ''0123456789''"

fun str_nat :: "nat \<Rightarrow> string" where
  "str_nat n =
     (if n < 10 then [digit_chars ! n]
      else str_nat (n div 10) @ [digit_chars ! (n mod 10)])"

definition str_int :: "int \<Rightarrow> string" where
  "str_int i = (if i < 0 then CHR ''-'' # str_nat (nat (- i)) else str_nat (nat i))"

text \<open>\<^verbatim>\<open>f'{move if move != NO_MOVE else ""}'\<close>.\<close>

definition move_tag :: "int \<Rightarrow> string" where
  "move_tag move = (if move \<noteq> NO_MOVE then str_int move else [])"

subsection \<open>Expanding the tree\<close>

text \<open>
  A row of \<^verbatim>\<open>moves_and_temp_states\<close>: the tag of the parent, the tag of the node, and the
  board of the node.
\<close>

type_synonym row = "string \<times> string \<times> board"

definition first_ply :: "viergewinnt \<Rightarrow> string \<Rightarrow> board \<Rightarrow> int list \<Rightarrow> error + row list" where
  "first_ply g player_name st moves =
     comprehension
       (map (\<lambda>move. ebind (insert_piece g player_name move (Some st))
                      (\<lambda>st'. Inr ([], str_int move, st')))
            moves)"

text \<open>
  One of the three comprehensions over \<^verbatim>\<open>moves_and_temp_states[:, 1:]\<close>. The slice needs a
  two-dimensional array, which \<^verbatim>\<open>np.array\<close> of an empty list is not; the column
  \<^verbatim>\<open>[:, 0]\<close> or \<^verbatim>\<open>[:, 2]\<close> read from the new array right after needs the same.
\<close>

definition ply :: "viergewinnt \<Rightarrow> string \<Rightarrow> row list \<Rightarrow> error + row list" where
  "ply g player_name rows =
     (if rows = [] then Inl IndexError
      else
        ebind
          (comprehension
             (concat
                (map (\<lambda>(_, prev_move, temp_state).
                        map (\<lambda>move. ebind (insert_piece g player_name move (Some temp_state))
                                       (\<lambda>st'. Inr (prev_move, prev_move @ move_tag move, st')))
                            (get_available_moves g (Some temp_state)))
                     rows)))
          (\<lambda>rows'. if rows' = [] then Inl IndexError else Inr rows'))"

text \<open>
  The loop \<^verbatim>\<open>for i in range(self.iteration-1)\<close>: a ply of the agent, then a ply of the
  opponent, the parents' tags appended to \<^verbatim>\<open>self_move_idx\<close> and \<^verbatim>\<open>opp_move_idx\<close>.
\<close>

fun expand_loop ::
  "viergewinnt \<Rightarrow> string \<Rightarrow> string \<Rightarrow> nat \<Rightarrow> row list \<Rightarrow> string list list \<Rightarrow> string list list
     \<Rightarrow> error + (row list \<times> string list list \<times> string list list)" where
  "expand_loop g self_name opp_name 0 rows self_move_idx opp_move_idx =
     Inr (rows, self_move_idx, opp_move_idx)"
| "expand_loop g self_name opp_name (Suc n) rows self_move_idx opp_move_idx =
     ebind (ply g self_name rows) (\<lambda>rows'.
     ebind (ply g opp_name rows') (\<lambda>rows''.
       expand_loop g self_name opp_name n rows''
         (self_move_idx @ [map fst rows']) (opp_move_idx @ [map fst rows''])))"

subsection \<open>Scoring the leaves\<close>

definition calc_state_values :: "deep_agent \<Rightarrow> board list \<Rightarrow> real list" where
  "calc_state_values ag states = map (value_model ag) states"

definition calc_reward :: "deep_agent \<Rightarrow> winner \<Rightarrow> real" where
  "calc_reward ag w =
     (if w = W_Name (name ag) then 1
      else if w = W_None then 0
      else if w = W_False then 1 / 2
      else - 1)"

definition leaf_values :: "viergewinnt \<Rightarrow> deep_agent \<Rightarrow> board list \<Rightarrow> real list" where
  "leaf_values g ag final_states =
     (let state_values = calc_state_values ag final_states;
          winners = map (\<lambda>temp_state. check_winner g (Some temp_state)) final_states
      in map (\<lambda>(v, w). if w = W_None then v else calc_reward ag w)
             (zip state_values winners))"

subsection \<open>Grouping\<close>

text \<open>
  Modelled from the spec: \<^verbatim>\<open>groupby_np\<close> of the module \<^verbatim>\<open>numpy_groupby\<close>, which is imported
  and is not among the sources. Section 4.3, step 5: group the values by their tag and
  take the minimum (or the maximum) within each group, one value per group; the groups
  come in the order in which their tags first occur, which is the order the final result
  is said to have. Values and tags are paired by position, so there must be as many of
  the one as of the other.
\<close>

fun first_occurrences :: "'a list \<Rightarrow> 'a list" where
  "first_occurrences [] = []"
| "first_occurrences (x # xs) = x # filter (\<lambda>y. y \<noteq> x) (first_occurrences xs)"

definition group_of :: "'v list \<Rightarrow> 'k list \<Rightarrow> 'k \<Rightarrow> 'v list" where
  "group_of X groups k = map fst (filter (\<lambda>(x, k'). k' = k) (zip X groups))"

definition reduce :: "('v \<Rightarrow> 'v \<Rightarrow> 'v) \<Rightarrow> 'v list \<Rightarrow> 'v" where
  "reduce uf vs = foldl uf (hd vs) (tl vs)"

definition groupby_np :: "real list \<Rightarrow> string list \<Rightarrow> (real \<Rightarrow> real \<Rightarrow> real) \<Rightarrow> error + real list" where
  "groupby_np X groups uf =
     (if length X \<noteq> length groups then Inl IndexError
      else Inr (map (\<lambda>k. reduce uf (group_of X groups k)) (first_occurrences groups)))"

subsection \<open>\<^verbatim>\<open>calc_move_values\<close>\<close>

text \<open>
  The loop \<^verbatim>\<open>for i in range(self.iteration-2, -1, -1)\<close>, counted by the number of rounds
  left: round \<open>i\<close> takes the maximum over \<^verbatim>\<open>self_move_idx[i]\<close>, then the minimum over
  \<^verbatim>\<open>opp_move_idx[i]\<close>.
\<close>

fun reduce_loop ::
  "nat \<Rightarrow> real list \<Rightarrow> string list list \<Rightarrow> string list list \<Rightarrow> error + real list" where
  "reduce_loop 0 state_values self_move_idx opp_move_idx = Inr state_values"
| "reduce_loop (Suc i) state_values self_move_idx opp_move_idx =
     ebind (groupby_np state_values (self_move_idx ! i) max) (\<lambda>state_values'.
     ebind (groupby_np state_values' (opp_move_idx ! i) min) (\<lambda>state_values''.
       reduce_loop i state_values'' self_move_idx opp_move_idx))"

text \<open>
  The first part of \<^verbatim>\<open>calc_move_values\<close> on its own, lines 105 to 136: the rows of the leaves
  with the two lists of parent tags, before any leaf is scored.
\<close>

definition expand_tree ::
  "deep_agent \<Rightarrow> viergewinnt \<Rightarrow> board \<Rightarrow> int list
     \<Rightarrow> error + (row list \<times> string list list \<times> string list list)" where
  "expand_tree ag g st moves =
     (let opp_name = get_opponent_name g (name ag) in
      ebind (first_ply g (name ag) st moves) (\<lambda>rows0.
      ebind (ply g opp_name rows0) (\<lambda>rows1.
        expand_loop g (name ag) opp_name (nat (iteration ag - 1)) rows1 [] [map fst rows1])))"

definition calc_move_values :: "deep_agent \<Rightarrow> game \<Rightarrow> board \<Rightarrow> int list \<Rightarrow> error + real list" where
  "calc_move_values ag gm st moves =
     (case gm of
        Game \<Rightarrow> Inl AttributeError
      | VierGewinnt g \<Rightarrow>
          (let opp_name = get_opponent_name g (name ag) in
           ebind (first_ply g (name ag) st moves) (\<lambda>rows0.
           ebind (ply g opp_name rows0) (\<lambda>rows1.
           ebind (expand_loop g (name ag) opp_name (nat (iteration ag - 1)) rows1
                    [] [map fst rows1]) (\<lambda>(rows, self_move_idx, opp_move_idx).
           ebind (groupby_np (leaf_values g ag (map (\<lambda>(_, _, temp_state). temp_state) rows))
                    (last opp_move_idx) min) (\<lambda>state_values.
             reduce_loop (nat (iteration ag - 1)) state_values
               self_move_idx opp_move_idx))))))"

subsection \<open>\<^verbatim>\<open>find_move\<close>\<close>

text \<open>
  The two random draws are arguments: \<open>rnd\<close> is what \<^verbatim>\<open>random.random()\<close> returns and
  \<open>pick\<close> decides which element \<^verbatim>\<open>random.choice\<close> takes. The mask
  \<^verbatim>\<open>move_values == np.max(move_values)\<close> must be as long as \<^verbatim>\<open>available_moves\<close>.
\<close>

definition random_choice :: "nat \<Rightarrow> 'a list \<Rightarrow> error + 'a" where
  "random_choice pick xs = (if xs = [] then Inl IndexError else Inr (xs ! (pick mod length xs)))"

definition find_move :: "deep_agent \<Rightarrow> game \<Rightarrow> board \<Rightarrow> bool \<Rightarrow> real \<Rightarrow> nat \<Rightarrow> error + int" where
  "find_move ag gm st learn rnd pick =
     (let ef = (if learn then exp_factor ag else 0);
          available_moves = game_get_available_moves gm None
      in if length available_moves = 0 then Inl FullBoardException
         else if length available_moves = 1 then Inr (available_moves ! 0)
         else if rnd < ef then random_choice pick available_moves
         else
           ebind (calc_move_values ag gm st available_moves) (\<lambda>move_values.
             if length move_values \<noteq> length available_moves then Inl IndexError
             else random_choice pick
                    (map fst (filter (\<lambda>(move, v). v = Max (set move_values))
                                (zip available_moves move_values)))))"

section \<open>The minimax value of the specification\<close>

text \<open>
  Section 4.3 of the specification, written as a recursion over the game tree. A move
  that cannot be inserted leaves the board as it is; step 4 scores a leaf, the opponent
  minimises over its replies and the agent maximises over its own moves.
\<close>

definition spec_play :: "viergewinnt \<Rightarrow> string \<Rightarrow> int \<Rightarrow> board \<Rightarrow> board" where
  "spec_play g player_name move st =
     (case insert_piece g player_name move (Some st) of Inl e \<Rightarrow> st | Inr st' \<Rightarrow> st')"

definition spec_leaf_score :: "viergewinnt \<Rightarrow> deep_agent \<Rightarrow> board \<Rightarrow> real" where
  "spec_leaf_score g ag st =
     (case check_winner g (Some st) of
        W_None \<Rightarrow> value_model ag st
      | W_False \<Rightarrow> 1 / 2
      | W_Name n \<Rightarrow> if n = name ag then 1 else - 1)"

definition spec_opp_min :: "viergewinnt \<Rightarrow> deep_agent \<Rightarrow> (board \<Rightarrow> real) \<Rightarrow> board \<Rightarrow> real" where
  "spec_opp_min g ag f st =
     Min (set (map (\<lambda>move. f (spec_play g (get_opponent_name g (name ag)) move st))
                 (get_available_moves g (Some st))))"

definition spec_self_max :: "viergewinnt \<Rightarrow> deep_agent \<Rightarrow> (board \<Rightarrow> real) \<Rightarrow> board \<Rightarrow> real" where
  "spec_self_max g ag f st =
     Max (set (map (\<lambda>move. f (spec_play g (name ag) move st))
                 (get_available_moves g (Some st))))"

text \<open>The value of a position with the agent to move and \<open>n\<close> more round trips to look at.\<close>

primrec spec_minimax :: "viergewinnt \<Rightarrow> deep_agent \<Rightarrow> nat \<Rightarrow> board \<Rightarrow> real" where
  "spec_minimax g ag 0 = spec_leaf_score g ag"
| "spec_minimax g ag (Suc n) = spec_self_max g ag (spec_opp_min g ag (spec_minimax g ag n))"

text \<open>The value of a first move at lookahead depth \<open>d\<close>.\<close>

definition spec_move_value :: "viergewinnt \<Rightarrow> deep_agent \<Rightarrow> nat \<Rightarrow> board \<Rightarrow> int \<Rightarrow> real" where
  "spec_move_value g ag d st move =
     spec_opp_min g ag (spec_minimax g ag (d - 1)) (spec_play g (name ag) move st)"

section \<open>Example games and boards\<close>

text \<open>Concrete inputs on which the theorems below are instantiated.\<close>

definition game_AB :: viergewinnt where
  "game_AB = \<lparr>player1 = ''A'', player2 = ''B'', state = empty_board\<rparr>"

definition board_rows_both :: board where
  "board_rows_both =
     [[1, 1, 1, 1, - 1, - 1, - 1],
      [- 1, - 1, - 1, - 1, 1, 1, 1],
      [1, 1, 1, 1, - 1, - 1, - 1],
      [- 1, - 1, - 1, - 1, 1, 1, 1],
      [1, 1, 1, 1, - 1, - 1, - 1],
      [- 1, - 1, - 1, - 1, 1, 1, 1]]"

definition board_open :: board where
  "board_open =
     [[0, 0, - 1, 0, 0, 0, 0],
      [0, 0, 1, 0, 0, 0, 0],
      [0, 0, - 1, 0, 0, 0, 0],
      [0, 0, 1, 1, 0, 0, 0],
      [0, 0, - 1, - 1, 0, 0, 0],
      [0, 1, 1, - 1, 0, 0, 0]]"

definition board_one_drop :: board where
  "board_one_drop =
     [[0, 0, 0, 0, 0, 0, 0],
      [0, 0, 0, 0, 0, 0, 0],
      [0, 0, 0, 0, 0, 0, 0],
      [0, 0, 0, 0, 0, 0, 0],
      [0, 0, 0, 0, 0, 0, 0],
      [0, 0, 0, 1, 0, 0, 0]]"

definition board_rows_open :: board where
  "board_rows_open =
     [[1, 1, 1, 1, - 1, - 1, 0],
      [- 1, - 1, - 1, - 1, 1, 1, 1],
      [1, 1, 1, 1, - 1, - 1, - 1],
      [- 1, - 1, - 1, - 1, 1, 1, 1],
      [1, 1, 1, 1, - 1, - 1, - 1],
      [- 1, - 1, - 1, - 1, 1, 1, 1]]"

definition vm_top_row :: "board \<Rightarrow> real" where
  "vm_top_row st = real_of_int (sum_list (map (\<lambda>(w, v). w * v) (zip [1, 2, 3, 4, 5, 6, 7] (st ! 0)))) / 100"

definition agent_A :: deep_agent where
  "agent_A = \<lparr>name = ''A'', exp_factor = 1 / 5, iteration = 1, value_model = vm_top_row\<rparr>"

definition board_A_wins :: board where
  "board_A_wins =
     [[0, 0, 0, 0, 0, 0, 0],
      [0, 0, 0, 0, 0, 0, 0],
      [0, 0, 0, 1, 0, 0, 0],
      [0, 0, 0, 1, - 1, 0, 0],
      [0, 0, 0, 1, - 1, 0, 0],
      [0, 0, 0, 1, - 1, 0, 0]]"

definition board_B_wins :: board where
  "board_B_wins =
     [[0, 0, 0, 0, 0, 0, 0],
      [0, 0, 0, 0, 0, 0, 0],
      [0, 0, 0, 0, 0, 0, 0],
      [0, 0, 0, 0, 0, 0, 0],
      [1, 1, 1, 0, 0, 0, 0],
      [- 1, - 1, - 1, - 1, 1, 0, 0]]"

definition game_full :: viergewinnt where
  "game_full = \<lparr>player1 = ''A'', player2 = ''B'', state = board_rows_both\<rparr>"

definition game_open :: viergewinnt where
  "game_open = \<lparr>player1 = ''A'', player2 = ''B'', state = board_open\<rparr>"

definition agent_quarter :: deep_agent where
  "agent_quarter = \<lparr>name = ''A'', exp_factor = 1 / 5, iteration = 1, value_model = (\<lambda>st. 1 / 4)\<rparr>"

definition agent_A2 :: deep_agent where
  "agent_A2 = \<lparr>name = ''A'', exp_factor = 1 / 5, iteration = 2, value_model = vm_top_row\<rparr>"

definition board_threat :: board where
  "board_threat =
     [[0, 0, 0, 0, 0, 0, 0],
      [0, 0, 0, 0, 0, 0, 0],
      [0, 0, 0, 0, 0, 0, 0],
      [- 1, 0, 0, 0, 0, 0, 0],
      [- 1, 1, 0, 0, 0, 0, 0],
      [- 1, 1, 1, 0, 0, 0, 0]]"

definition board_two_left :: board where
  "board_two_left =
     [[0, 0, 1, 1, - 1, - 1, 1],
      [1, 1, - 1, - 1, 1, 1, - 1],
      [- 1, - 1, 1, 1, - 1, - 1, 1],
      [1, 1, - 1, - 1, 1, 1, - 1],
      [- 1, - 1, 1, 1, - 1, - 1, 1],
      [1, 1, - 1, - 1, 1, 1, - 1]]"

definition board_both_three :: board where
  "board_both_three =
     [[0, 0, 0, 0, 0, 0, 0],
      [0, 0, 0, 0, 0, 0, 0],
      [0, 0, 0, 0, 0, 0, 0],
      [0, 0, 0, 1, - 1, 0, 0],
      [0, 0, 0, 1, - 1, 0, 0],
      [0, 0, 0, 1, - 1, 0, 0]]"

definition board_race :: board where
  "board_race =
     [[0, 0, 1, 1, - 1, - 1, 1],
      [0, 0, - 1, - 1, 1, 1, - 1],
      [1, - 1, 1, 1, - 1, - 1, 1],
      [1, - 1, - 1, - 1, 1, 1, - 1],
      [1, - 1, 1, 1, - 1, - 1, 1],
      [- 1, 1, - 1, - 1, 1, 1, - 1]]"

section \<open>Notions for the expansion\<close>

text \<open>
  A row of the expansion carries the tag of its parent, its own tag and its board. The
  children of a row are what one ply makes of it; a level of the tree is good when it is
  not empty, its boards are 6x7 boards and no tag is a prefix of a later one.
\<close>

definition row_tag :: "row \<Rightarrow> string" where
  "row_tag r = fst (snd r)"

definition row_state :: "row \<Rightarrow> board" where
  "row_state r = snd (snd r)"

definition children :: "viergewinnt \<Rightarrow> string \<Rightarrow> row \<Rightarrow> row list" where
  "children g player_name r =
     map (\<lambda>move. (row_tag r, row_tag r @ move_tag move, spec_play g player_name move (row_state r)))
         (get_available_moves g (Some (row_state r)))"

definition good_rows :: "row list \<Rightarrow> bool" where
  "good_rows rows =
     (rows \<noteq> [] \<and> list_all (\<lambda>r. wf_board (row_state r)) rows \<and>
      sorted_wrt parallel (map row_tag rows))"

section \<open>Columns, gravity and \<^verbatim>\<open>insert_piece\<close>\<close>

lemma count_empty_le: "count_empty xs \<le> length xs"
  by (simp add: count_empty_def)

lemma count_empty_zero_iff: "count_empty xs = 0 \<longleftrightarrow> EMPTY \<notin> set xs"
  by (induction xs) (auto simp: count_empty_def)

lemma count_empty_pos: "0 < count_empty xs \<longleftrightarrow> EMPTY \<in> set xs"
  using count_empty_zero_iff[of xs] by auto

lemma count_empty_Cons:
  "count_empty (x # xs) = (if x = EMPTY then Suc (count_empty xs) else count_empty xs)"
  by (simp add: count_empty_def)

lemma gravity_col_update:
  "gravity_col xs \<Longrightarrow> 0 < count_empty xs \<Longrightarrow> v \<noteq> EMPTY
     \<Longrightarrow> gravity_col (xs[count_empty xs - 1 := v])"
proof (induction xs)
  case Nil
  then show ?case by (simp add: count_empty_def)
next
  case (Cons x xs)
  show ?case
  proof (cases "x = EMPTY")
    case True
    note x = this
    show ?thesis
    proof (cases "count_empty xs = 0")
      case True
      then have "EMPTY \<notin> set xs" by (simp add: count_empty_zero_iff)
      with x True Cons.prems show ?thesis by (simp add: count_empty_Cons)
    next
      case False
      then obtain k where k: "count_empty xs = Suc k" by (cases "count_empty xs") auto
      from Cons.prems x have "gravity_col xs" by simp
      with Cons.IH False Cons.prems have "gravity_col (xs[count_empty xs - 1 := v])" by simp
      with x k show ?thesis by (simp add: count_empty_Cons)
    qed
  next
    case False
    with Cons.prems have "EMPTY \<notin> set xs" by simp
    then have "count_empty xs = 0" by (simp add: count_empty_zero_iff)
    with False Cons.prems show ?thesis by (simp add: count_empty_Cons)
  qed
qed

lemma gravity_col_split:
  "gravity_col xs \<Longrightarrow>
     (\<forall>j<count_empty xs. xs ! j = EMPTY) \<and>
     (\<forall>j. count_empty xs \<le> j \<and> j < length xs \<longrightarrow> xs ! j \<noteq> EMPTY)"
proof (induction xs)
  case Nil
  then show ?case by (simp add: count_empty_def)
next
  case (Cons x xs)
  show ?case
  proof (cases "x = EMPTY")
    case True
    with Cons have IH: "(\<forall>j<count_empty xs. xs ! j = EMPTY) \<and>
      (\<forall>j. count_empty xs \<le> j \<and> j < length xs \<longrightarrow> xs ! j \<noteq> EMPTY)" by simp
    show ?thesis
    proof (intro conjI allI impI)
      fix j assume "j < count_empty (x # xs)"
      with True IH show "(x # xs) ! j = EMPTY"
        by (cases j) (auto simp: count_empty_Cons)
    next
      fix j assume "count_empty (x # xs) \<le> j \<and> j < length (x # xs)"
      with True IH show "(x # xs) ! j \<noteq> EMPTY"
        by (cases j) (auto simp: count_empty_Cons)
    qed
  next
    case False
    with Cons.prems have ne: "EMPTY \<notin> set xs" by simp
    then have z: "count_empty xs = 0" by (simp add: count_empty_zero_iff)
    show ?thesis
    proof (intro conjI allI impI)
      fix j assume "j < count_empty (x # xs)"
      with False z show "(x # xs) ! j = EMPTY" by (simp add: count_empty_Cons)
    next
      fix j assume a: "count_empty (x # xs) \<le> j \<and> j < length (x # xs)"
      show "(x # xs) ! j \<noteq> EMPTY"
      proof (cases j)
        case 0
        with False show ?thesis by simp
      next
        case (Suc k)
        with a have "k < length xs" by simp
        then have "xs ! k \<in> set xs" by simp
        with ne Suc show ?thesis by auto
      qed
    qed
  qed
qed

lemma gravity_col_iff:
  "gravity_col xs \<longleftrightarrow> (\<forall>i j. i < j \<and> j < length xs \<and> xs ! i \<noteq> EMPTY \<longrightarrow> xs ! j \<noteq> EMPTY)"
proof (induction xs)
  case Nil
  then show ?case by simp
next
  case (Cons x xs)
  show ?case
  proof (cases "x = EMPTY")
    case True
    have "(\<forall>i j. i < j \<and> j < length (x # xs) \<and> (x # xs) ! i \<noteq> EMPTY \<longrightarrow> (x # xs) ! j \<noteq> EMPTY)
       \<longleftrightarrow> (\<forall>i j. i < j \<and> j < length xs \<and> xs ! i \<noteq> EMPTY \<longrightarrow> xs ! j \<noteq> EMPTY)" (is "?L \<longleftrightarrow> ?R")
    proof
      assume L: ?L
      show ?R
      proof (intro allI impI)
        fix i j assume "i < j \<and> j < length xs \<and> xs ! i \<noteq> EMPTY"
        then have "Suc i < Suc j \<and> Suc j < length (x # xs) \<and> (x # xs) ! Suc i \<noteq> EMPTY" by simp
        with L have "(x # xs) ! Suc j \<noteq> EMPTY" by blast
        then show "xs ! j \<noteq> EMPTY" by simp
      qed
    next
      assume R: ?R
      show ?L
      proof (intro allI impI)
        fix i j assume a: "i < j \<and> j < length (x # xs) \<and> (x # xs) ! i \<noteq> EMPTY"
        then obtain j' where j': "j = Suc j'" by (cases j) auto
        from a True obtain i' where i': "i = Suc i'" by (cases i) auto
        from a i' j' have "i' < j' \<and> j' < length xs \<and> xs ! i' \<noteq> EMPTY" by simp
        with R have "xs ! j' \<noteq> EMPTY" by blast
        with j' show "(x # xs) ! j \<noteq> EMPTY" by simp
      qed
    qed
    with True Cons show ?thesis by simp
  next
    case False
    have "EMPTY \<notin> set xs
       \<longleftrightarrow> (\<forall>i j. i < j \<and> j < length (x # xs) \<and> (x # xs) ! i \<noteq> EMPTY \<longrightarrow> (x # xs) ! j \<noteq> EMPTY)"
      (is "?L \<longleftrightarrow> ?R")
    proof
      assume L: ?L
      show ?R
      proof (intro allI impI)
        fix i j assume a: "i < j \<and> j < length (x # xs) \<and> (x # xs) ! i \<noteq> EMPTY"
        then obtain j' where j': "j = Suc j'" by (cases j) auto
        with a have "xs ! j' \<in> set xs" by simp
        with L j' show "(x # xs) ! j \<noteq> EMPTY" by auto
      qed
    next
      assume R: ?R
      show ?L
      proof
        assume "EMPTY \<in> set xs"
        then obtain k where k: "k < length xs" "xs ! k = EMPTY" by (auto simp: in_set_conv_nth)
        with False have "0 < Suc k \<and> Suc k < length (x # xs) \<and> (x # xs) ! 0 \<noteq> EMPTY" by simp
        with R have "(x # xs) ! Suc k \<noteq> EMPTY" by blast
        with k show False by simp
      qed
    qed
    with False show ?thesis by simp
  qed
qed

lemma nth_update_any: "xs[i := x] ! j = (if i = j \<and> i < length xs then x else xs ! j)"
  by (cases "i < length xs") (auto simp: nth_list_update list_update_beyond)

lemma length_column: "length (column st c) = length st"
  by (simp add: column_def)

lemma nth_column: "r < length st \<Longrightarrow> column st c ! r = st ! r ! c"
  by (simp add: column_def)

lemma column_set_cell_same:
  "r < length st \<Longrightarrow> c < length (st ! r) \<Longrightarrow> column (set_cell st r c v) c = (column st c)[r := v]"
  by (rule nth_equalityI) (auto simp: column_def set_cell_def nth_list_update)

lemma column_set_cell_other:
  "c' \<noteq> c \<Longrightarrow> column (set_cell st r c v) c' = column st c'"
  by (rule nth_equalityI) (auto simp: column_def set_cell_def nth_update_any)

lemma wf_board_rows: "wf_board st \<Longrightarrow> r < 6 \<Longrightarrow> length (st ! r) = 7"
  by (auto simp: wf_board_def list_all_length)

lemma wf_board_length: "wf_board st \<Longrightarrow> length st = 6"
  by (simp add: wf_board_def)

lemma wf_board_ncols: "wf_board st \<Longrightarrow> ncols st = 7"
  by (cases st) (auto simp: wf_board_def ncols_def)

lemma wf_board_set_cell: "wf_board st \<Longrightarrow> wf_board (set_cell st r c v)"
  by (auto simp: wf_board_def set_cell_def list_all_length nth_update_any)

lemma wf_empty_board: "wf_board empty_board"
  by (simp add: wf_board_def empty_board_def list_all_length)

lemma name2val_nonempty: "name2val g nm = Some v \<Longrightarrow> v \<noteq> EMPTY"
  by (auto simp: name2val_def EMPTY_def split: if_splits)

lemma name2val_players:
  "nm = player1 g \<or> nm = player2 g \<Longrightarrow> \<exists>v. name2val g nm = Some v"
  by (auto simp: name2val_def)

lemma norm_index_Some: "norm_index n i = Some c \<Longrightarrow> c < n"
  by (auto simp: norm_index_def split: if_splits)

lemma insert_piece_cases:
  assumes "insert_piece g nm col (Some st) = Inr st'"
  shows "st' = st \<or>
         (\<exists>c v. c < ncols st \<and> 0 < count_empty (column st c) \<and> name2val g nm = Some v \<and>
                st' = set_cell st (count_empty (column st c) - 1) c v)"
proof (cases "col = NO_MOVE")
  case True
  with assms show ?thesis by (simp add: insert_piece_def arg_state_def)
next
  case False
  with assms obtain c where c: "norm_index (ncols st) col = Some c"
    by (cases "norm_index (ncols st) col") (auto simp: insert_piece_def arg_state_def)
  from assms False c have pos: "0 < count_empty (column st c)"
    by (auto simp: insert_piece_def arg_state_def split: if_splits)
  from assms False c pos obtain v where v: "name2val g nm = Some v"
    by (cases "name2val g nm") (auto simp: insert_piece_def arg_state_def)
  from assms False c pos v have "st' = set_cell st (count_empty (column st c) - 1) c v"
    by (simp add: insert_piece_def arg_state_def)
  with norm_index_Some[OF c] pos v show ?thesis by blast
qed

lemma gravity_set_cell:
  assumes wf: "wf_board st" and gr: "gravity st" and c: "c < 7"
    and pos: "0 < count_empty (column st c)" and v: "v \<noteq> EMPTY"
  shows "gravity (set_cell st (count_empty (column st c) - 1) c v)"
proof -
  let ?r = "count_empty (column st c) - 1"
  have "count_empty (column st c) \<le> 6"
    using count_empty_le[of "column st c"] wf by (simp add: length_column wf_board_length)
  with pos have r: "?r < length st" using wf by (simp add: wf_board_length)
  then have cr: "c < length (st ! ?r)" using wf c by (simp add: wf_board_rows wf_board_length)
  have "gravity_col (column (set_cell st ?r c v) c')" if c': "c' < 7" for c'
  proof (cases "c' = c")
    case True
    from gr c have "gravity_col (column st c)" by (simp add: gravity_def list_all_iff)
    then have "gravity_col ((column st c)[?r := v])" using pos v by (rule gravity_col_update)
    with True r cr show ?thesis by (simp add: column_set_cell_same)
  next
    case False
    from gr c' have "gravity_col (column st c')" by (simp add: gravity_def list_all_iff)
    with False show ?thesis by (simp add: column_set_cell_other)
  qed
  then show ?thesis by (simp add: gravity_def list_all_iff)
qed

lemma insert_piece_gravity:
  assumes "wf_board st" "gravity st" "insert_piece g nm col (Some st) = Inr st'"
  shows "gravity st'"
proof -
  from insert_piece_cases[OF assms(3)] show ?thesis
  proof
    assume "st' = st"
    with assms(2) show ?thesis by simp
  next
    assume "\<exists>c v. c < ncols st \<and> 0 < count_empty (column st c) \<and> name2val g nm = Some v \<and>
                st' = set_cell st (count_empty (column st c) - 1) c v"
    then obtain c v where c: "c < ncols st" and pos: "0 < count_empty (column st c)"
      and v: "name2val g nm = Some v"
      and st': "st' = set_cell st (count_empty (column st c) - 1) c v" by blast
    from c assms(1) have "c < 7" by (simp add: wf_board_ncols)
    then show ?thesis
      using gravity_set_cell[OF assms(1,2) _ pos name2val_nonempty[OF v]] st' by simp
  qed
qed

lemma insert_piece_wf:
  assumes "wf_board st" "insert_piece g nm col (Some st) = Inr st'"
  shows "wf_board st'"
  using insert_piece_cases[OF assms(2)] assms(1)
  by (auto intro: wf_board_set_cell)

lemma gravity_empty_board: "gravity empty_board"
  by (simp add: gravity_def empty_board_def column_def EMPTY_def upt_conv_Cons eval_nat_numeral)

lemma reachable_wf_gravity: "reachable g st \<Longrightarrow> wf_board st \<and> gravity st"
proof (induction rule: reachable.induct)
  case start
  show ?case by (simp add: wf_empty_board gravity_empty_board)
next
  case (drop st player_name col st')
  then show ?case by (auto intro: insert_piece_wf insert_piece_gravity)
qed

lemma set_cell_nth:
  "r' < length st \<Longrightarrow> c' < length (st ! r') \<Longrightarrow>
     set_cell st r c v ! r' ! c' = (if r' = r \<and> c' = c then v else st ! r' ! c')"
  by (auto simp: set_cell_def nth_update_any)

lemma norm_index_in_range: "0 \<le> i \<Longrightarrow> i < int n \<Longrightarrow> norm_index n i = Some (nat i)"
  by (simp add: norm_index_def)

lemma NO_MOVE_negative: "0 \<le> col \<Longrightarrow> col \<noteq> NO_MOVE"
  by (auto simp: NO_MOVE_def)

lemma insert_piece_obj_in_range:
  assumes "wf_board (h ! st)" "0 \<le> col" "col < 7"
  shows "insert_piece_obj g h nm col st =
     (if count_empty (column (h ! st) (nat col)) = 0 then (h, Inl FullColumnException)
      else case name2val g nm of
             None \<Rightarrow> (h @ [h ! st], Inl KeyError)
           | Some v \<Rightarrow>
               (h @ [set_cell (h ! st) (count_empty (column (h ! st) (nat col)) - 1) (nat col) v],
                Inr (length h)))"
  using assms
  by (auto simp: insert_piece_obj_def NO_MOVE_negative wf_board_ncols norm_index_in_range
        deepcopy_def Let_def split: option.splits)

lemma insert_piece_in_range:
  assumes "wf_board st" "0 \<le> col" "col < 7"
  shows "insert_piece g nm col (Some st) =
     (if count_empty (column st (nat col)) = 0 then Inl FullColumnException
      else case name2val g nm of
             None \<Rightarrow> Inl KeyError
           | Some v \<Rightarrow> Inr (set_cell st (count_empty (column st (nat col)) - 1) (nat col) v))"
  using assms
  by (auto simp: insert_piece_def arg_state_def NO_MOVE_negative wf_board_ncols
        norm_index_in_range Let_def split: option.splits)

lemma insert_piece_obj_value:
  "st < length h \<Longrightarrow>
     (case insert_piece_obj g h nm col st of
        (h', Inl e) \<Rightarrow> insert_piece g nm col (Some (h ! st)) = Inl e
      | (h', Inr r) \<Rightarrow> insert_piece g nm col (Some (h ! st)) = Inr (h' ! r))"
  by (auto simp: insert_piece_obj_def insert_piece_def arg_state_def deepcopy_def Let_def
        nth_append split: option.splits)

text \<open>
  What \<^verbatim>\<open>insert_piece\<close> does on any 6x7 board of the store: the row it writes is the number
  of empty cells of the column, less one.
\<close>

lemma insert_piece_obj_count:
  assumes "st < length h" and "wf_board (h ! st)" and "0 \<le> col" and "col < 7"
  shows
    "(snd (insert_piece_obj g h nm col st) = Inl FullColumnException
        \<longleftrightarrow> EMPTY \<notin> set (column (h ! st) (nat col))) \<and>
     (\<forall>a<length h. fst (insert_piece_obj g h nm col st) ! a = h ! a) \<and>
     (\<forall>h' r. insert_piece_obj g h nm col st = (h', Inr r) \<longrightarrow>
        r = length h \<and> h' ! st = h ! st \<and>
        (\<exists>v. name2val g nm = Some v \<and>
           h' ! r = set_cell (h ! st) (count_empty (column (h ! st) (nat col)) - 1) (nat col) v) \<and>
        (gravity_col (column (h ! st) (nat col)) \<longrightarrow>
           h ! st ! (count_empty (column (h ! st) (nat col)) - 1) ! nat col = EMPTY \<and>
           (\<forall>r'. count_empty (column (h ! st) (nat col)) - 1 < r' \<and> r' < 6 \<longrightarrow>
                 h ! st ! r' ! nat col \<noteq> EMPTY)))"
proof -
  let ?b = "h ! st" and ?c = "nat col"
  let ?n = "count_empty (column ?b ?c)"
  note eq = insert_piece_obj_in_range[OF assms(2,3,4)]
  have one: "snd (insert_piece_obj g h nm col st) = Inl FullColumnException
        \<longleftrightarrow> EMPTY \<notin> set (column ?b ?c)"
    by (auto simp: eq count_empty_zero_iff split: option.splits)
  have two: "\<forall>a<length h. fst (insert_piece_obj g h nm col st) ! a = h ! a"
    by (auto simp: eq nth_append split: option.splits)
  have three: "r = length h \<and> h' ! st = h ! st \<and>
        (\<exists>v. name2val g nm = Some v \<and> h' ! r = set_cell ?b (?n - 1) ?c v) \<and>
        (gravity_col (column ?b ?c) \<longrightarrow>
           ?b ! (?n - 1) ! ?c = EMPTY \<and> (\<forall>r'. ?n - 1 < r' \<and> r' < 6 \<longrightarrow> ?b ! r' ! ?c \<noteq> EMPTY))"
    if ok: "insert_piece_obj g h nm col st = (h', Inr r)" for h' r
  proof -
    from ok have pos: "0 < ?n"
      by (auto simp: eq split: if_splits)
    from ok pos obtain v where v: "name2val g nm = Some v"
      by (cases "name2val g nm") (auto simp: eq)
    from ok pos v have h': "h' = h @ [set_cell ?b (?n - 1) ?c v]" and r: "r = length h"
      by (auto simp: eq)
    have a: "h' ! st = h ! st" using h' assms(1) by (simp add: nth_append)
    have b: "h' ! r = set_cell ?b (?n - 1) ?c v" using h' r by simp
    have c: "?b ! (?n - 1) ! ?c = EMPTY \<and> (\<forall>r'. ?n - 1 < r' \<and> r' < 6 \<longrightarrow> ?b ! r' ! ?c \<noteq> EMPTY)"
      if gr: "gravity_col (column ?b ?c)"
    proof -
      have len: "length (column ?b ?c) = 6" using assms(2) by (simp add: length_column wf_board_length)
      have le: "?n \<le> 6" using count_empty_le[of "column ?b ?c"] len by simp
      from gravity_col_split[OF gr] pos have "column ?b ?c ! (?n - 1) = EMPTY" by simp
      moreover have "column ?b ?c ! r' \<noteq> EMPTY" if "?n - 1 < r' \<and> r' < 6" for r'
        using gravity_col_split[OF gr] that len by auto
      ultimately show ?thesis using le pos assms(2)
        by (auto simp: nth_column wf_board_length)
    qed
    from r a b v c show ?thesis by blast
  qed
  from one two three show ?thesis by blast
qed

lemmas eval_defs = check_winner_def arg_state_def winner_positions_def vertical_def horizontal_def
  diag_down_right_def diag_down_left_def convolve2d_def ncols_def any_eq_def all_nonempty_def EMPTY_def
  upt_conv_Cons

lemma wf_board_open: "wf_board board_open"
  by (simp add: wf_board_def board_open_def)

lemma gravity_board_open: "gravity board_open"
  by code_simp

lemma gravity_column: "gravity st \<Longrightarrow> c < 7 \<Longrightarrow> gravity_col (column st c)"
  by (simp add: gravity_def list_all_iff)

text \<open>
  Claim C4. For a board of the store that is a 6x7 board satisfying gravity, and a column
  index from 0 to 6, \<^verbatim>\<open>insert_piece\<close> raises \<^verbatim>\<open>FullColumnException\<close> exactly when the column
  has no empty cell, and returns when it has one and the name is a player's. Whatever it
  does, every object that was in the store, the board passed in among them, is left as it
  was. When it returns, it returns a new object: the input board with the value of the
  inserting side in the lowest empty row of the column (that cell was empty, every cell
  below it is not) and every other cell as before.
\<close>

theorem insert_piece_obj_spec:
  assumes "st < length h" and "wf_board (h ! st)" and "gravity (h ! st)"
    and "0 \<le> col" and "col < 7"
  shows
    "(snd (insert_piece_obj g h nm col st) = Inl FullColumnException
        \<longleftrightarrow> EMPTY \<notin> set (column (h ! st) (nat col))) \<and>
     (EMPTY \<in> set (column (h ! st) (nat col)) \<and> (nm = player1 g \<or> nm = player2 g)
        \<longrightarrow> (\<exists>h' r. insert_piece_obj g h nm col st = (h', Inr r))) \<and>
     (\<forall>a<length h. fst (insert_piece_obj g h nm col st) ! a = h ! a) \<and>
     (\<forall>h' r. insert_piece_obj g h nm col st = (h', Inr r) \<longrightarrow>
        r = length h \<and> h' ! st = h ! st \<and>
        (\<exists>v row. name2val g nm = Some v \<and> row < 6 \<and>
           h ! st ! row ! nat col = EMPTY \<and>
           (\<forall>r'. row < r' \<and> r' < 6 \<longrightarrow> h ! st ! r' ! nat col \<noteq> EMPTY) \<and>
           h' ! r = set_cell (h ! st) row (nat col) v \<and>
           (\<forall>r' c'. r' < 6 \<and> c' < 7 \<longrightarrow>
              h' ! r ! r' ! c' = (if r' = row \<and> c' = nat col then v else h ! st ! r' ! c'))))"
proof -
  let ?b = "h ! st" and ?c = "nat col"
  let ?n = "count_empty (column ?b ?c)"
  note gen = insert_piece_obj_count[OF assms(1,2,4,5), of g nm]
  from assms(3,5) have gc: "gravity_col (column ?b ?c)" by (simp add: gravity_column)
  have le: "?n \<le> 6"
    using count_empty_le[of "column ?b ?c"] assms(2) by (simp add: length_column wf_board_length)
  have one: "snd (insert_piece_obj g h nm col st) = Inl FullColumnException
        \<longleftrightarrow> EMPTY \<notin> set (column ?b ?c)"
    using gen by blast
  have ret: "\<exists>h' r. insert_piece_obj g h nm col st = (h', Inr r)"
    if "EMPTY \<in> set (column ?b ?c) \<and> (nm = player1 g \<or> nm = player2 g)"
  proof -
    from that have "0 < ?n" by (simp add: count_empty_pos)
    moreover from that obtain v where "name2val g nm = Some v" using name2val_players by blast
    ultimately show ?thesis
      by (simp add: insert_piece_obj_in_range[OF assms(2,4,5)])
  qed
  have two: "\<forall>a<length h. fst (insert_piece_obj g h nm col st) ! a = h ! a"
    using gen by blast
  have three: "r = length h \<and> h' ! st = h ! st \<and>
        (\<exists>v row. name2val g nm = Some v \<and> row < 6 \<and>
           ?b ! row ! ?c = EMPTY \<and>
           (\<forall>r'. row < r' \<and> r' < 6 \<longrightarrow> ?b ! r' ! ?c \<noteq> EMPTY) \<and>
           h' ! r = set_cell ?b row ?c v \<and>
           (\<forall>r' c'. r' < 6 \<and> c' < 7 \<longrightarrow>
              h' ! r ! r' ! c' = (if r' = row \<and> c' = ?c then v else ?b ! r' ! c')))"
    if ok: "insert_piece_obj g h nm col st = (h', Inr r)" for h' r
  proof -
    from gen ok have r: "r = length h" and same: "h' ! st = h ! st" by blast+
    from gen ok obtain v where v: "name2val g nm = Some v"
      and new: "h' ! r = set_cell ?b (?n - 1) ?c v" by blast
    from gen ok gc have low: "?b ! (?n - 1) ! ?c = EMPTY"
      "\<forall>r'. ?n - 1 < r' \<and> r' < 6 \<longrightarrow> ?b ! r' ! ?c \<noteq> EMPTY" by blast+
    from ok have pos: "0 < ?n"
      by (auto simp: insert_piece_obj_in_range[OF assms(2,4,5)] split: if_splits)
    with le have row: "?n - 1 < 6" by simp
    have cells: "\<forall>r' c'. r' < 6 \<and> c' < 7 \<longrightarrow>
        h' ! r ! r' ! c' = (if r' = ?n - 1 \<and> c' = ?c then v else ?b ! r' ! c')"
      using assms(2) by (simp add: new set_cell_nth wf_board_length wf_board_rows)
    from r same v row low new cells show ?thesis by blast
  qed
  from one ret two three show ?thesis by blast
qed

theorem insert_piece_obj_spec_witness:
  "wf_board board_open \<and> (0::int) \<le> 3 \<and> (3::int) < 7 \<and>
   gravity_col (column board_open 3) \<and>
   insert_piece_obj game_AB [board_open] ''A'' 3 0 = ([board_open, set_cell board_open 2 3 1], Inr 1) \<and>
   [board_open, set_cell board_open 2 3 1] ! 0 = board_open \<and>
   board_open ! 2 ! 3 = EMPTY \<and> board_open ! 3 ! 3 \<noteq> EMPTY \<and>
   snd (insert_piece_obj game_AB [board_open] ''B'' 2 0) = Inl FullColumnException"
proof -
  have wf: "wf_board ([board_open] ! 0)" by (simp add: wf_board_open)
  have ev: "insert_piece_obj game_AB [board_open] ''A'' 3 0
              = ([board_open, set_cell board_open 2 3 1], Inr 1)"
    by code_simp
  have gc: "gravity_col (column ([board_open] ! 0) (nat 3))" by code_simp
  have n: "count_empty (column ([board_open] ! 0) (nat 3)) = 3" by code_simp
  have full: "EMPTY \<notin> set (column ([board_open] ! 0) (nat 2))" by code_simp
  have gr: "gravity ([board_open] ! 0)" by (simp add: gravity_board_open)
  have emp: "board_open ! 2 ! 3 = EMPTY \<and> board_open ! 3 ! 3 \<noteq> EMPTY"
    by (simp add: board_open_def EMPTY_def)
  from insert_piece_obj_spec[where st = 0 and h = "[board_open]" and col = 3
        and g = game_AB and nm = "''A''", OF _ wf gr] ev
  have "[board_open, set_cell board_open 2 3 1] ! 0 = [board_open] ! 0"
    by simp
  with emp have a: "[board_open, set_cell board_open 2 3 1] ! 0 = board_open \<and>
           board_open ! 2 ! 3 = EMPTY \<and> board_open ! 3 ! 3 \<noteq> EMPTY"
    by simp
  from insert_piece_obj_spec[where st = 0 and h = "[board_open]" and col = 2
        and g = game_AB and nm = "''B''", OF _ wf gr] full
  have b: "snd (insert_piece_obj game_AB [board_open] ''B'' 2 0) = Inl FullColumnException"
    by simp
  from a b ev gc wf show ?thesis by simp
qed

text \<open>
  Claim C8. With \<^verbatim>\<open>NO_MOVE\<close> as the column, \<^verbatim>\<open>insert_piece\<close> raises nothing and returns the
  state it was given: the same object of an unchanged store, the same board as a value, and
  the live board when no state is passed. Nothing is asked of the board, so a board whose
  columns are all full is included.
\<close>

theorem insert_piece_no_move:
  "insert_piece_obj g h nm NO_MOVE st = (h, Inr st) \<and>
   insert_piece g nm NO_MOVE (Some s) = Inr s \<and>
   insert_piece g nm NO_MOVE None = Inr (state g)"
  by (simp add: insert_piece_obj_def insert_piece_def arg_state_def)

theorem insert_piece_no_move_witness:
  "all_nonempty board_rows_both \<and>
   insert_piece_obj game_AB [board_rows_both] ''A'' NO_MOVE 0 = ([board_rows_both], Inr 0) \<and>
   insert_piece game_AB ''A'' NO_MOVE (Some board_rows_both) = Inr board_rows_both"
proof -
  have "all_nonempty board_rows_both" by code_simp
  with insert_piece_no_move[of game_AB "[board_rows_both]" "''A''" 0 board_rows_both]
  show ?thesis by simp
qed

text \<open>Gravity of a board, cell by cell: no empty cell lies below a non-empty one.\<close>

lemma gravity_iff:
  assumes "wf_board st"
  shows "gravity st \<longleftrightarrow>
     (\<forall>c<7. \<forall>r1 r2. r1 < r2 \<and> r2 < 6 \<and> st ! r1 ! c \<noteq> EMPTY \<longrightarrow> st ! r2 ! c \<noteq> EMPTY)"
proof -
  have len: "length st = 6" using assms by (simp add: wf_board_length)
  have "gravity_col (column st c) \<longleftrightarrow>
      (\<forall>r1 r2. r1 < r2 \<and> r2 < 6 \<and> st ! r1 ! c \<noteq> EMPTY \<longrightarrow> st ! r2 ! c \<noteq> EMPTY)" for c
  proof -
    have "column st c ! i = st ! i ! c" if "i < 6" for i
      using that by (simp add: nth_column len)
    then have "(\<forall>i j. i < j \<and> j < 6 \<and> column st c ! i \<noteq> EMPTY \<longrightarrow> column st c ! j \<noteq> EMPTY)
      \<longleftrightarrow> (\<forall>r1 r2. r1 < r2 \<and> r2 < 6 \<and> st ! r1 ! c \<noteq> EMPTY \<longrightarrow> st ! r2 ! c \<noteq> EMPTY)"
      by (metis less_trans)
    then show ?thesis by (simp add: gravity_col_iff length_column len)
  qed
  then show ?thesis by (auto simp: gravity_def list_all_iff)
qed

text \<open>
  Claim C7. Every board reached from the empty 6x7 board by calls of \<^verbatim>\<open>insert_piece\<close> that
  return is a 6x7 board whose columns satisfy gravity: in no column does an empty cell lie
  below a non-empty one. And every call of \<^verbatim>\<open>insert_piece\<close> that returns, on a 6x7 board
  that satisfies gravity, returns a 6x7 board that satisfies it.
\<close>

theorem gravity_invariant:
  "(reachable g st \<longrightarrow>
      wf_board st \<and> gravity st \<and>
      (\<forall>c<7. \<forall>r1 r2. r1 < r2 \<and> r2 < 6 \<and> st ! r1 ! c \<noteq> EMPTY \<longrightarrow> st ! r2 ! c \<noteq> EMPTY)) \<and>
   (wf_board st \<and> gravity st \<and> insert_piece g nm col (Some st) = Inr st' \<longrightarrow>
      wf_board st' \<and> gravity st')"
proof (intro conjI impI)
  assume r: "reachable g st"
  then show "wf_board st" "gravity st" by (simp_all add: reachable_wf_gravity)
  then show "\<forall>c<7. \<forall>r1 r2. r1 < r2 \<and> r2 < 6 \<and> st ! r1 ! c \<noteq> EMPTY \<longrightarrow> st ! r2 ! c \<noteq> EMPTY"
    by (simp only: gravity_iff)
next
  assume a: "wf_board st \<and> gravity st \<and> insert_piece g nm col (Some st) = Inr st'"
  then show "wf_board st'" by (blast intro: insert_piece_wf)
  from a show "gravity st'" by (blast intro: insert_piece_gravity)
qed

lemma reachable_one_drop: "reachable game_AB board_one_drop"
proof -
  have "insert_piece game_AB ''A'' 3 (Some empty_board) = Inr board_one_drop" by code_simp
  with reachable.start[of game_AB] show ?thesis by (rule reachable.drop)
qed

theorem gravity_invariant_witness:
  "reachable game_AB board_one_drop \<and> gravity board_one_drop \<and>
   insert_piece game_AB ''B'' 3 (Some board_one_drop) = Inr (set_cell board_one_drop 4 3 (- 1)) \<and>
   gravity (set_cell board_one_drop 4 3 (- 1))"
proof -
  have ins: "insert_piece game_AB ''B'' 3 (Some board_one_drop)
               = Inr (set_cell board_one_drop 4 3 (- 1))"
    by code_simp
  from gravity_invariant[of game_AB board_one_drop "''B''" 3 "set_cell board_one_drop 4 3 (- 1)"]
    reachable_one_drop ins
  show ?thesis by simp
qed

section \<open>\<^verbatim>\<open>check_winner\<close> and \<^verbatim>\<open>get_available_moves\<close>\<close>

text \<open>
  Claim C2. \<^verbatim>\<open>check_winner\<close> looks at the vertical mask first: a score of 4 there makes
  player 1 the winner, a score of -4 player 2. If the vertical mask gives no winner and the
  board has no empty cell, the result is the draw \<^verbatim>\<open>False\<close> and no other mask is looked at.
  Otherwise the horizontal mask, the diagonal down-right and the diagonal down-left are
  tried in this order, the first winner found is returned, and the result is \<^verbatim>\<open>None\<close> when
  no mask gives one.
\<close>

theorem check_winner_order:
  "check_winner g (Some st) =
     (if any_eq (convolve2d st vertical) 4 then W_Name (player1 g)
      else if any_eq (convolve2d st vertical) (- 4) then W_Name (player2 g)
      else if all_nonempty st then W_False
      else if any_eq (convolve2d st horizontal) 4 then W_Name (player1 g)
      else if any_eq (convolve2d st horizontal) (- 4) then W_Name (player2 g)
      else if any_eq (convolve2d st diag_down_right) 4 then W_Name (player1 g)
      else if any_eq (convolve2d st diag_down_right) (- 4) then W_Name (player2 g)
      else if any_eq (convolve2d st diag_down_left) 4 then W_Name (player1 g)
      else if any_eq (convolve2d st diag_down_left) (- 4) then W_Name (player2 g)
      else W_None)"
  by (simp add: check_winner_def arg_state_def winner_positions_def)

lemma rows_both_facts:
  "\<not> any_eq (convolve2d board_rows_both vertical) 4"
  "\<not> any_eq (convolve2d board_rows_both vertical) (- 4)"
  "all_nonempty board_rows_both"
  "any_eq (convolve2d board_rows_both horizontal) 4"
  "any_eq (convolve2d board_rows_both horizontal) (- 4)"
  by (simp_all add: board_rows_both_def eval_defs)

text \<open>
  On the full board \<open>board_rows_both\<close> both players have four in a row horizontally and
  nobody has four vertically: the result is the draw.
\<close>

theorem check_winner_order_witness:
  "all_nonempty board_rows_both \<and> any_eq (convolve2d board_rows_both horizontal) 4 \<and>
   check_winner game_AB (Some board_rows_both) = W_False"
  using check_winner_order[of game_AB board_rows_both] by (simp add: rows_both_facts)

text \<open>The loop never returns \<^verbatim>\<open>None\<close> on a board without an empty cell.\<close>

lemma check_loop_None_not_full:
  "check_loop g st ps = W_None \<Longrightarrow> ps \<noteq> [] \<Longrightarrow> \<not> all_nonempty st"
  by (cases ps) (auto simp: Let_def split: if_splits)

lemma check_winner_None_not_full:
  assumes "check_winner g (Some st) = W_None"
  shows "\<not> all_nonempty st"
proof -
  have "winner_positions \<noteq> []" by (simp add: winner_positions_def)
  with assms show ?thesis
    using check_loop_None_not_full[of g st winner_positions]
    by (simp add: check_winner_def arg_state_def)
qed

text \<open>
  Within one mask the score 4 is tested before the score -4. The first mask that matches
  anybody decides for player 1 if it matches player 1, provided the loop gets that far: the
  mask is the first of the list or the board has an empty cell.
\<close>

lemma check_loop_player1_first:
  "i < length ps \<Longrightarrow> any_eq (convolve2d st (ps ! i)) 4
     \<Longrightarrow> \<forall>j<i. \<not> any_eq (convolve2d st (ps ! j)) 4 \<and> \<not> any_eq (convolve2d st (ps ! j)) (- 4)
     \<Longrightarrow> i = 0 \<or> \<not> all_nonempty st
     \<Longrightarrow> check_loop g st ps = W_Name (player1 g)"
proof (induction ps arbitrary: i)
  case Nil
  then show ?case by simp
next
  case (Cons p ps)
  show ?case
  proof (cases i)
    case 0
    with Cons.prems show ?thesis by simp
  next
    case (Suc k)
    with Cons.prems have no: "\<not> any_eq (convolve2d st p) 4 \<and> \<not> any_eq (convolve2d st p) (- 4)"
      by auto
    from Suc Cons.prems have nf: "\<not> all_nonempty st" by simp
    from Suc Cons.prems have k: "k < length ps" "any_eq (convolve2d st (ps ! k)) 4" by simp_all
    from Suc Cons.prems have
      "\<forall>j<k. \<not> any_eq (convolve2d st (ps ! j)) 4 \<and> \<not> any_eq (convolve2d st (ps ! j)) (- 4)"
      by auto
    with Cons.IH[of k] k nf have "check_loop g st ps = W_Name (player1 g)" by simp
    with no nf show ?thesis by simp
  qed
qed

text \<open>
  Claim C10, as the code has it. When the first of the four masks, in their fixed order,
  that matches either player matches both of them, and that mask is the vertical one or the
  board still has an empty cell, \<^verbatim>\<open>check_winner\<close> returns player 1. On a board without an
  empty cell whose vertical mask matches nobody it returns the draw \<^verbatim>\<open>False\<close>, whatever the
  other masks match.
\<close>

theorem check_winner_player1_first:
  "(i < length winner_positions \<and>
    any_eq (convolve2d st (winner_positions ! i)) 4 \<and>
    any_eq (convolve2d st (winner_positions ! i)) (- 4) \<and>
    (\<forall>j<i. \<not> any_eq (convolve2d st (winner_positions ! j)) 4 \<and>
           \<not> any_eq (convolve2d st (winner_positions ! j)) (- 4)) \<and>
    (i = 0 \<or> \<not> all_nonempty st)
      \<longrightarrow> check_winner g (Some st) = W_Name (player1 g)) \<and>
   (all_nonempty st \<and>
    \<not> any_eq (convolve2d st vertical) 4 \<and> \<not> any_eq (convolve2d st vertical) (- 4)
      \<longrightarrow> check_winner g (Some st) = W_False)"
proof (intro conjI impI)
  assume a: "i < length winner_positions \<and>
    any_eq (convolve2d st (winner_positions ! i)) 4 \<and>
    any_eq (convolve2d st (winner_positions ! i)) (- 4) \<and>
    (\<forall>j<i. \<not> any_eq (convolve2d st (winner_positions ! j)) 4 \<and>
           \<not> any_eq (convolve2d st (winner_positions ! j)) (- 4)) \<and>
    (i = 0 \<or> \<not> all_nonempty st)"
  then have "check_loop g st winner_positions = W_Name (player1 g)"
    by (intro check_loop_player1_first[of i]) blast+
  then show "check_winner g (Some st) = W_Name (player1 g)"
    by (simp add: check_winner_def arg_state_def)
next
  assume "all_nonempty st \<and>
    \<not> any_eq (convolve2d st vertical) 4 \<and> \<not> any_eq (convolve2d st vertical) (- 4)"
  then show "check_winner g (Some st) = W_False"
    by (simp add: check_winner_def arg_state_def winner_positions_def)
qed

text \<open>
  The claim as it was stated fails on a full board: \<open>board_rows_both\<close> has four in a row
  for both players horizontally, for nobody vertically, and the result is the draw, not
  player 1.
\<close>

theorem check_winner_player1_first_counterexample:
  "any_eq (convolve2d board_rows_both (winner_positions ! 1)) 4 \<and>
   any_eq (convolve2d board_rows_both (winner_positions ! 1)) (- 4) \<and>
   \<not> any_eq (convolve2d board_rows_both (winner_positions ! 0)) 4 \<and>
   \<not> any_eq (convolve2d board_rows_both (winner_positions ! 0)) (- 4) \<and>
   check_winner game_AB (Some board_rows_both) \<noteq> W_Name (player1 game_AB)"
proof -
  have "check_winner game_AB (Some board_rows_both) = W_False"
    by (simp add: check_winner_def arg_state_def winner_positions_def rows_both_facts)
  then show ?thesis by (simp add: winner_positions_def rows_both_facts)
qed

lemma rows_open_facts:
  "\<not> any_eq (convolve2d board_rows_open vertical) 4"
  "\<not> any_eq (convolve2d board_rows_open vertical) (- 4)"
  "\<not> all_nonempty board_rows_open"
  "any_eq (convolve2d board_rows_open horizontal) 4"
  "any_eq (convolve2d board_rows_open horizontal) (- 4)"
  by (simp_all add: board_rows_open_def eval_defs)

theorem check_winner_player1_first_witness:
  "any_eq (convolve2d board_rows_open horizontal) 4 \<and>
   any_eq (convolve2d board_rows_open horizontal) (- 4) \<and>
   \<not> any_eq (convolve2d board_rows_open vertical) 4 \<and>
   \<not> any_eq (convolve2d board_rows_open vertical) (- 4) \<and>
   \<not> all_nonempty board_rows_open \<and>
   check_winner game_AB (Some board_rows_open) = W_Name ''A'' \<and>
   all_nonempty board_rows_both \<and>
   any_eq (convolve2d board_rows_both horizontal) 4 \<and>
   check_winner game_AB (Some board_rows_both) = W_False"
proof -
  have hyp: "(1::nat) < length winner_positions \<and>
    any_eq (convolve2d board_rows_open (winner_positions ! 1)) 4 \<and>
    any_eq (convolve2d board_rows_open (winner_positions ! 1)) (- 4) \<and>
    (\<forall>j<1. \<not> any_eq (convolve2d board_rows_open (winner_positions ! j)) 4 \<and>
           \<not> any_eq (convolve2d board_rows_open (winner_positions ! j)) (- 4)) \<and>
    ((1::nat) = 0 \<or> \<not> all_nonempty board_rows_open)"
    by (simp add: winner_positions_def rows_open_facts)
  from check_winner_player1_first[of 1 board_rows_open game_AB] hyp
  have one: "check_winner game_AB (Some board_rows_open) = W_Name (player1 game_AB)"
    by blast
  from check_winner_player1_first[of 0 board_rows_both game_AB] rows_both_facts
  have two: "check_winner game_AB (Some board_rows_both) = W_False"
    by blast
  from one two show ?thesis by (simp add: rows_open_facts rows_both_facts game_AB_def)
qed

subsection \<open>Available moves\<close>

lemma EMPTY_in_column: "EMPTY \<in> set (column st c) \<longleftrightarrow> (\<exists>r<length st. st ! r ! c = EMPTY)"
  by (force simp: column_def in_set_conv_nth)

lemma NO_MOVE_not_column: "NO_MOVE \<notin> set [0..6]"
  by (simp add: NO_MOVE_def)

lemma filter_columns_not_NO_MOVE: "filter P [0..6] \<noteq> [NO_MOVE]"
proof
  assume "filter P [0..6] = [NO_MOVE]"
  then have "NO_MOVE \<in> set (filter P [0..6])" by simp
  then show False using NO_MOVE_not_column by auto
qed

lemma get_available_moves_undecided:
  "check_winner g (Some st) = W_None \<Longrightarrow>
     get_available_moves g (Some st) = filter (\<lambda>c. 0 < count_empty (column st (nat c))) [0..6]"
  by (simp add: get_available_moves_def arg_state_def)

lemma get_available_moves_decided:
  "check_winner g (Some st) \<noteq> W_None \<Longrightarrow> get_available_moves g (Some st) = [NO_MOVE]"
  by (simp add: get_available_moves_def arg_state_def)

text \<open>
  Claim C3. On a 6x7 board \<^verbatim>\<open>get_available_moves\<close> returns the one-element list
  \<^verbatim>\<open>[NO_MOVE]\<close> if and only if \<^verbatim>\<open>check_winner\<close> returns something other than \<^verbatim>\<open>None\<close>.
  Otherwise it returns the column indices 0 to 6 that have an empty cell in one of the six
  rows, each once and in ascending order.
\<close>

theorem get_available_moves_spec:
  assumes "wf_board st"
  shows "(get_available_moves g (Some st) = [NO_MOVE] \<longleftrightarrow> check_winner g (Some st) \<noteq> W_None) \<and>
         (check_winner g (Some st) = W_None \<longrightarrow>
            get_available_moves g (Some st) = filter (\<lambda>c. \<exists>r<6. st ! r ! nat c = EMPTY) [0..6] \<and>
            sorted_wrt (<) (get_available_moves g (Some st)) \<and>
            set (get_available_moves g (Some st))
              = {c. 0 \<le> c \<and> c < 7 \<and> (\<exists>r<6. st ! r ! nat c = EMPTY)})"
proof -
  have len: "length st = 6" using assms by (simp add: wf_board_length)
  have iff: "get_available_moves g (Some st) = [NO_MOVE] \<longleftrightarrow> check_winner g (Some st) \<noteq> W_None"
    by (auto simp: get_available_moves_undecided get_available_moves_decided
          filter_columns_not_NO_MOVE)
  have P: "(0 < count_empty (column st (nat c))) = (\<exists>r<6. st ! r ! nat c = EMPTY)" for c
    by (simp add: count_empty_pos EMPTY_in_column len)
  have und: "get_available_moves g (Some st) = filter (\<lambda>c. \<exists>r<6. st ! r ! nat c = EMPTY) [0..6]"
    if "check_winner g (Some st) = W_None"
    using that by (simp add: get_available_moves_undecided P)
  have srt: "sorted_wrt (<) (filter Q [0..6])" for Q :: "int \<Rightarrow> bool"
    by (rule sorted_wrt_filter) (simp add: upto_rec1)
  have "set (filter (\<lambda>c. \<exists>r<6. st ! r ! nat c = EMPTY) [0..6])
          = {c. 0 \<le> c \<and> c < 7 \<and> (\<exists>r<6. st ! r ! nat c = EMPTY)}"
    by auto
  with iff und srt show ?thesis by simp
qed

lemma board_open_undecided: "check_winner game_AB (Some board_open) = W_None"
  by (simp add: board_open_def eval_defs)

theorem get_available_moves_spec_witness:
  "wf_board board_open \<and> check_winner game_AB (Some board_open) = W_None \<and>
   get_available_moves game_AB (Some board_open) \<noteq> [NO_MOVE] \<and>
   get_available_moves game_AB (Some board_open) = [0, 1, 3, 4, 5, 6] \<and>
   wf_board board_rows_both \<and> check_winner game_AB (Some board_rows_both) = W_False \<and>
   get_available_moves game_AB (Some board_rows_both) = [NO_MOVE]"
proof -
  have wf2: "wf_board board_rows_both" by (simp add: wf_board_def board_rows_both_def)
  have dec: "check_winner game_AB (Some board_rows_both) = W_False"
    by (simp add: check_winner_def arg_state_def winner_positions_def rows_both_facts)
  have ev: "get_available_moves game_AB (Some board_open) = [0, 1, 3, 4, 5, 6]"
    by code_simp
  from get_available_moves_spec[OF wf_board_open, of game_AB] board_open_undecided
  have "get_available_moves game_AB (Some board_open) \<noteq> [NO_MOVE]"
    by blast
  with ev have a: "get_available_moves game_AB (Some board_open) \<noteq> [NO_MOVE] \<and>
           get_available_moves game_AB (Some board_open) = [0, 1, 3, 4, 5, 6]"
    by simp
  from get_available_moves_spec[OF wf2, of game_AB] dec
  have b: "get_available_moves game_AB (Some board_rows_both) = [NO_MOVE]" by simp
  from a b wf2 dec wf_board_open board_open_undecided show ?thesis by simp
qed

section \<open>Scoring the leaves\<close>

lemma calc_reward_cases:
  "calc_reward ag (W_Name n) = (if n = name ag then 1 else - 1)"
  "calc_reward ag W_False = 1 / 2"
  "calc_reward ag W_None = 0"
  by (simp_all add: calc_reward_def)

lemma leaf_values_map:
  "leaf_values g ag sts = map (spec_leaf_score g ag) sts"
proof -
  have "(if w = W_None then v else calc_reward ag w) =
        (case w of W_None \<Rightarrow> v | W_False \<Rightarrow> 1 / 2 | W_Name n \<Rightarrow> if n = name ag then 1 else - 1)"
    for w v
    by (cases w) (simp_all add: calc_reward_cases)
  then show ?thesis
    by (simp add: leaf_values_def calc_state_values_def spec_leaf_score_def zip_map_map
          zip_same_conv_map)
qed

text \<open>The scores of a list of leaves, position by position.\<close>

lemma leaf_values_nth:
  "length (leaf_values g ag sts) = length sts \<and>
   (\<forall>i<length sts.
      leaf_values g ag sts ! i =
        (case check_winner g (Some (sts ! i)) of
           W_None \<Rightarrow> value_model ag (sts ! i)
         | W_False \<Rightarrow> 1 / 2
         | W_Name n \<Rightarrow> if n = name ag then 1 else - 1))"
  by (simp add: leaf_values_map spec_leaf_score_def)

lemma example_winners:
  "check_winner game_AB (Some board_A_wins) = W_Name ''A''"
  "check_winner game_AB (Some board_B_wins) = W_Name ''B''"
  "check_winner game_AB (Some board_rows_both) = W_False"
  "check_winner game_AB (Some board_open) = W_None"
  by code_simp+

text \<open>
  Claim C6. In \<^verbatim>\<open>calc_move_values\<close> the leaves are the rows the expansion ends with, and the
  values that enter the reduction are their scores, one per leaf and in their order: a leaf
  on which \<^verbatim>\<open>check_winner\<close> returns the agent's own name scores 1, one on which it returns
  another name (the opponent's) scores -1, a draw scores 1/2, and a leaf on which it
  returns \<^verbatim>\<open>None\<close> scores what the value model says of that board. Nothing else of the
  leaves reaches the result.
\<close>

theorem calc_move_values_leaf_scores:
  "calc_move_values ag (VierGewinnt g) st moves =
     ebind (expand_tree ag g st moves) (\<lambda>(rows, self_move_idx, opp_move_idx).
       ebind (groupby_np
                (map (\<lambda>(_, _, leaf).
                        case check_winner g (Some leaf) of
                          W_None \<Rightarrow> value_model ag leaf
                        | W_False \<Rightarrow> 1 / 2
                        | W_Name n \<Rightarrow> if n = name ag then 1 else - 1)
                     rows)
                (last opp_move_idx) min)
         (\<lambda>state_values. reduce_loop (nat (iteration ag - 1)) state_values
                            self_move_idx opp_move_idx))"
proof -
  have sc: "leaf_values g ag (map (\<lambda>(_, _, temp_state). temp_state) rows)
      = map (\<lambda>(_, _, leaf).
                        case check_winner g (Some leaf) of
                          W_None \<Rightarrow> value_model ag leaf
                        | W_False \<Rightarrow> 1 / 2
                        | W_Name n \<Rightarrow> if n = name ag then 1 else - 1) rows" for rows :: "row list"
    by (simp add: leaf_values_map spec_leaf_score_def comp_def case_prod_beta)
  show ?thesis
    unfolding calc_move_values_def expand_tree_def Let_def
    by (auto simp: ebind_def sc split: sum.splits)
qed

text \<open>
  Four leaves seen through the result. On \<open>board_threat\<close> every reply to column 1 that
  matters is the opponent's fourth piece in column 0 (-1), and after column 0 no reply
  decides the game (the estimate 1/4). On \<open>board_both_three\<close> column 3 wins at once (1).
  On \<open>board_two_left\<close> both lines end on a full board without a vertical four (1/2).
\<close>

theorem calc_move_values_leaf_scores_witness:
  "calc_move_values agent_quarter (VierGewinnt game_AB) board_threat [1, 0] = Inr [- 1, 1 / 4] \<and>
   calc_move_values agent_quarter (VierGewinnt game_AB) board_both_three [3, 0] = Inr [1, - 1] \<and>
   calc_move_values agent_quarter (VierGewinnt game_AB) board_two_left [0, 1] = Inr [1 / 2, 1 / 2]"
proof -
  have a: "calc_move_values agent_quarter (VierGewinnt game_AB) board_threat [1, 0]
             = Inr [- 1, 1 / 4]"
    unfolding calc_move_values_leaf_scores by code_simp
  have b: "calc_move_values agent_quarter (VierGewinnt game_AB) board_both_three [3, 0]
             = Inr [1, - 1]"
    unfolding calc_move_values_leaf_scores by code_simp
  have c: "calc_move_values agent_quarter (VierGewinnt game_AB) board_two_left [0, 1]
             = Inr [1 / 2, 1 / 2]"
    unfolding calc_move_values_leaf_scores by code_simp
  from a b c show ?thesis by simp
qed

section \<open>\<^verbatim>\<open>find_move\<close>\<close>

text \<open>The placeholder game has no moves: \<^verbatim>\<open>find_move\<close> raises \<^verbatim>\<open>FullBoardException\<close>.\<close>

lemma find_move_placeholder:
  "find_move ag Game st learn rnd pick = Inl FullBoardException"
  by (simp add: find_move_def)

text \<open>A board without an empty cell is decided, whatever the masks say.\<close>

lemma full_board_decided:
  assumes "all_nonempty (state g)"
  shows "check_winner g None \<noteq> W_None"
proof
  assume "check_winner g None = W_None"
  then have "check_winner g (Some (state g)) = W_None"
    by (simp add: check_winner_def arg_state_def)
  with check_winner_None_not_full assms show False by blast
qed

lemma get_available_moves_None:
  "get_available_moves g None = get_available_moves g (Some (state g))"
  by (simp add: get_available_moves_def arg_state_def)

lemma check_winner_None_arg:
  "check_winner g None = check_winner g (Some (state g))"
  by (simp add: check_winner_def arg_state_def)

text \<open>
  Claim C5, what the code does instead. In a \<^verbatim>\<open>VierGewinnt\<close> game whose live board is decided
  (a win, a draw, any board without an empty cell) the move generator returns the
  one-element list \<^verbatim>\<open>[NO_MOVE]\<close>, not the empty list; \<^verbatim>\<open>find_move\<close> takes the branch for one
  available move and returns \<^verbatim>\<open>NO_MOVE\<close>. It does not raise \<^verbatim>\<open>FullBoardException\<close>.
\<close>

theorem find_move_decided:
  assumes "all_nonempty (state g) \<or> check_winner g None \<noteq> W_None"
  shows "find_move ag (VierGewinnt g) st learn rnd pick = Inr NO_MOVE"
proof -
  from assms have "check_winner g (Some (state g)) \<noteq> W_None"
    using full_board_decided[of g] by (auto simp: check_winner_None_arg)
  then have "get_available_moves g None = [NO_MOVE]"
    by (simp add: get_available_moves_None get_available_moves_decided)
  then show ?thesis by (simp add: find_move_def)
qed

theorem find_move_decided_witness:
  "all_nonempty (state game_full) \<and>
   find_move agent_A (VierGewinnt game_full) board_rows_both False 0 0 = Inr (- 999) \<and>
   find_move agent_A (VierGewinnt game_full) board_rows_both False 0 0 \<noteq> Inl FullBoardException"
proof -
  have full: "all_nonempty (state game_full)" by code_simp
  with find_move_decided[of game_full agent_A board_rows_both False 0 0]
  show ?thesis by (simp add: NO_MOVE_def)
qed

lemma random_choice_member: "random_choice pick xs = Inr x \<Longrightarrow> x \<in> set xs"
  by (auto simp: random_choice_def split: if_splits)

lemma set_map_fst_filter_zip: "set (map fst (filter P (zip xs ys))) \<subseteq> set xs"
  by (auto dest: set_zip_leftD)

text \<open>
  Claim C9. \<^verbatim>\<open>find_move\<close> takes its candidate moves from \<^verbatim>\<open>get_available_moves()\<close> of the
  game, that is from the live board, whatever state it is passed: a move it returns is one
  of those; when there is at most one of them, or the draw \<open>rnd\<close> falls below the
  exploration factor, the state passed in changes nothing; and two states on which
  \<^verbatim>\<open>calc_move_values\<close> gives those candidates the same values give the same result.
\<close>

theorem find_move_live_state:
  "(\<forall>m. find_move ag gm st1 learn rnd pick = Inr m
        \<longrightarrow> m \<in> set (game_get_available_moves gm None)) \<and>
   (length (game_get_available_moves gm None) \<le> 1 \<or> rnd < (if learn then exp_factor ag else 0)
        \<longrightarrow> find_move ag gm st1 learn rnd pick = find_move ag gm st2 learn rnd pick) \<and>
   (calc_move_values ag gm st1 (game_get_available_moves gm None)
      = calc_move_values ag gm st2 (game_get_available_moves gm None)
        \<longrightarrow> find_move ag gm st1 learn rnd pick = find_move ag gm st2 learn rnd pick)"
proof (intro conjI allI impI)
  fix m assume a: "find_move ag gm st1 learn rnd pick = Inr m"
  let ?am = "game_get_available_moves gm None"
  have one: "?am ! 0 \<in> set ?am" if "length ?am = 1"
    using that by (cases ?am) simp_all
  from a show "m \<in> set ?am"
    by (auto simp: find_move_def Let_def ebind_def one split: if_splits sum.splits
          dest!: random_choice_member)
       (metis set_zip_leftD)+
next
  assume "length (game_get_available_moves gm None) \<le> 1
            \<or> rnd < (if learn then exp_factor ag else 0)"
  moreover have "length xs \<le> 1 \<Longrightarrow> xs = [] \<or> length xs = 1" for xs :: "int list"
    by (cases xs) auto
  ultimately show "find_move ag gm st1 learn rnd pick = find_move ag gm st2 learn rnd pick"
    by (auto simp: find_move_def Let_def)
next
  assume "calc_move_values ag gm st1 (game_get_available_moves gm None)
      = calc_move_values ag gm st2 (game_get_available_moves gm None)"
  then show "find_move ag gm st1 learn rnd pick = find_move ag gm st2 learn rnd pick"
    by (simp add: find_move_def Let_def)
qed

text \<open>
  The live board of \<open>game_open\<close> has a full column 2; the empty board passed as the state
  has none. The candidates are those of the live board, and with the exploring draw the
  result is the same for both states.
\<close>

theorem find_move_live_state_witness:
  "game_get_available_moves (VierGewinnt game_open) None = [0, 1, 3, 4, 5, 6] \<and>
   get_available_moves game_open (Some empty_board) = [0, 1, 2, 3, 4, 5, 6] \<and>
   find_move agent_A (VierGewinnt game_open) empty_board True (1 / 10) 2 = Inr 3 \<and>
   find_move agent_A (VierGewinnt game_open) board_open True (1 / 10) 2 = Inr 3"
proof -
  have am: "game_get_available_moves (VierGewinnt game_open) None = [0, 1, 3, 4, 5, 6]"
    by code_simp
  have am': "get_available_moves game_open (Some empty_board) = [0, 1, 2, 3, 4, 5, 6]"
    by code_simp
  have ev: "find_move agent_A (VierGewinnt game_open) empty_board True (1 / 10) 2 = Inr 3"
    by code_simp
  have ef: "(1 / 10 :: real) < (if True then exp_factor agent_A else 0)"
    by (simp add: agent_A_def)
  from find_move_live_state[of agent_A "VierGewinnt game_open" empty_board True "1 / 10" 2
        board_open] ef
  have "find_move agent_A (VierGewinnt game_open) empty_board True (1 / 10) 2
          = find_move agent_A (VierGewinnt game_open) board_open True (1 / 10) 2"
    by blast
  with am am' ev show ?thesis by simp
qed

section \<open>Grouping a list that comes in blocks\<close>

lemma set_first_occurrences: "set (first_occurrences xs) = set xs"
  by (induction xs) auto

lemma first_occurrences_block:
  "0 < n \<Longrightarrow> k \<notin> set rest
     \<Longrightarrow> first_occurrences (replicate n k @ rest) = k # first_occurrences rest"
proof (induction n)
  case 0
  then show ?case by simp
next
  case (Suc n)
  have id: "filter (\<lambda>y. y \<noteq> k) (first_occurrences rest) = first_occurrences rest"
    using Suc.prems by (auto simp: filter_id_conv set_first_occurrences)
  show ?case
  proof (cases n)
    case 0
    then show ?thesis by (simp add: id)
  next
    case (Suc m)
    with Suc.IH Suc.prems
    have "first_occurrences (replicate n k @ rest) = k # first_occurrences rest" by simp
    then show ?thesis by (simp add: id)
  qed
qed

lemma group_of_block_same:
  assumes "length chunk = n" and "k \<notin> set rest"
  shows "group_of (chunk @ X) (replicate n k @ rest) k = chunk"
proof -
  have a: "filter (\<lambda>(x, k'). k' = k) (zip chunk (replicate n k)) = zip chunk (replicate n k)"
    by (auto simp: filter_id_conv dest: set_zip_rightD)
  have b: "filter (\<lambda>(x, k'). k' = k) (zip X rest) = []"
    using assms(2) by (auto simp: filter_empty_conv dest: set_zip_rightD)
  from assms(1) show ?thesis
    by (simp add: group_of_def a b)
qed

lemma group_of_block_other:
  assumes "length chunk = n" and "k' \<noteq> k"
  shows "group_of (chunk @ X) (replicate n k @ rest) k' = group_of X rest k'"
proof -
  have "filter (\<lambda>(x, k''). k'' = k') (zip chunk (replicate n k)) = []"
    using assms(2) by (auto simp: filter_empty_conv dest: set_zip_rightD)
  with assms(1) show ?thesis by (simp add: group_of_def)
qed

lemma length_blocks:
  "length (concat (map (\<lambda>p. replicate (length (f p)) (key p)) ps)) = length (concat (map f ps))"
  by (induction ps) auto

lemma set_blocks:
  "set (concat (map (\<lambda>p. replicate (length (f p)) (key p)) ps)) \<subseteq> key ` set ps"
  by (induction ps) auto

text \<open>
  When the values come in non-empty blocks, block by block, and each block carries one tag
  that no other block carries, \<^verbatim>\<open>groupby_np\<close> reduces each block and keeps the order.
\<close>

lemma groupby_np_blocks:
  assumes "distinct (map key ps)" and "\<forall>p\<in>set ps. f p \<noteq> []"
  shows "groupby_np (concat (map f ps))
           (concat (map (\<lambda>p. replicate (length (f p)) (key p)) ps)) uf
         = Inr (map (\<lambda>p. reduce uf (f p)) ps)"
proof -
  let ?tags = "\<lambda>ps. concat (map (\<lambda>p. replicate (length (f p)) (key p)) ps)"
  let ?vals = "\<lambda>ps. concat (map f ps)"
  have "map (\<lambda>k. reduce uf (group_of (?vals ps) (?tags ps) k)) (first_occurrences (?tags ps))
          = map (\<lambda>p. reduce uf (f p)) ps"
    using assms
  proof (induction ps)
    case Nil
    then show ?case by simp
  next
    case (Cons p ps)
    let ?n = "length (f p)"
    have pos: "0 < ?n" using Cons.prems by simp
    have notin: "key p \<notin> set (?tags ps)"
      using Cons.prems(1) set_blocks[of f key ps] by auto
    have fo: "first_occurrences (?tags (p # ps)) = key p # first_occurrences (?tags ps)"
      using first_occurrences_block[OF pos notin] by simp
    have same: "group_of (?vals (p # ps)) (?tags (p # ps)) (key p) = f p"
      using group_of_block_same[OF refl notin, of "f p" "?vals ps"] by simp
    have other: "group_of (?vals (p # ps)) (?tags (p # ps)) k = group_of (?vals ps) (?tags ps) k"
      if "k \<in> set (first_occurrences (?tags ps))" for k
    proof -
      from that notin have "k \<noteq> key p" by (auto simp: set_first_occurrences)
      from group_of_block_other[OF refl this, of "f p" "?vals ps" "?tags ps"]
      show ?thesis by simp
    qed
    let ?F = "\<lambda>k. reduce uf (group_of (?vals (p # ps)) (?tags (p # ps)) k)"
    have "map ?F (first_occurrences (?tags ps))
          = map (\<lambda>k. reduce uf (group_of (?vals ps) (?tags ps) k)) (first_occurrences (?tags ps))"
      by (rule map_cong) (use other in simp_all)
    also have "\<dots> = map (\<lambda>p. reduce uf (f p)) ps"
      using Cons.IH Cons.prems by simp
    finally have step: "map ?F (first_occurrences (?tags ps)) = map (\<lambda>p. reduce uf (f p)) ps" .
    have hd: "?F (key p) = reduce uf (f p)" by (simp only: same)
    have "map ?F (first_occurrences (?tags (p # ps)))
            = ?F (key p) # map ?F (first_occurrences (?tags ps))"
      by (subst fo) simp
    also have "\<dots> = reduce uf (f p) # map (\<lambda>p. reduce uf (f p)) ps"
      by (simp only: hd step)
    finally show ?case by simp
  qed
  then show ?thesis by (simp add: groupby_np_def length_blocks)
qed

lemma reduce_min: "vs \<noteq> [] \<Longrightarrow> reduce min vs = Min (set vs)" for vs :: "real list"
proof -
  assume "vs \<noteq> []"
  then obtain x xs where vs: "vs = x # xs" by (cases vs) auto
  have "foldl min a ys = fold min ys a" for a :: real and ys
    by (induction ys arbitrary: a) (simp_all add: min.commute)
  then show ?thesis using Min.set_eq_fold[of x xs] by (simp add: reduce_def vs)
qed

lemma reduce_max: "vs \<noteq> [] \<Longrightarrow> reduce max vs = Max (set vs)" for vs :: "real list"
proof -
  assume "vs \<noteq> []"
  then obtain x xs where vs: "vs = x # xs" by (cases vs) auto
  have "foldl max a ys = fold max ys a" for a :: real and ys
    by (induction ys arbitrary: a) (simp_all add: max.commute)
  then show ?thesis using Max.set_eq_fold[of x xs] by (simp add: reduce_def vs)
qed

section \<open>The expansion, level by level\<close>

subsection \<open>Tags\<close>

lemma str_int_digit: "0 \<le> m \<Longrightarrow> m < 10 \<Longrightarrow> str_int m = [digit_chars ! nat m]"
  by (simp add: str_int_def)

lemma digit_chars_inj:
  "i < 10 \<Longrightarrow> j < 10 \<Longrightarrow> digit_chars ! i = digit_chars ! j \<Longrightarrow> i = j"
proof -
  have "distinct digit_chars" by (simp add: digit_chars_def)
  moreover have "length digit_chars = 10" by (simp add: digit_chars_def)
  ultimately show "i < 10 \<Longrightarrow> j < 10 \<Longrightarrow> digit_chars ! i = digit_chars ! j \<Longrightarrow> i = j"
    by (simp add: nth_eq_iff_index_eq)
qed

lemma move_tag_column: "0 \<le> m \<Longrightarrow> m < 7 \<Longrightarrow> move_tag m = [digit_chars ! nat m]"
  by (simp add: move_tag_def NO_MOVE_negative str_int_digit)

lemma parallel_prepend: "xs \<parallel> ys \<Longrightarrow> p @ xs \<parallel> p @ ys"
  by (induction p) (simp_all add: Cons_parallelI2)

lemma tags_parallel:
  assumes "0 \<le> a" "a < 7" "0 \<le> b" "b < 7" "a \<noteq> b"
  shows "p @ move_tag a \<parallel> p @ move_tag b"
proof -
  from assms have "nat a \<noteq> nat b" "nat a < 10" "nat b < 10" by auto
  then have "digit_chars ! nat a \<noteq> digit_chars ! nat b"
    using digit_chars_inj by blast
  then have "[digit_chars ! nat a] \<parallel> [digit_chars ! nat b]" by (rule Cons_parallelI1)
  then show ?thesis using assms by (simp add: move_tag_column parallel_prepend)
qed

subsection \<open>The moves of a board\<close>

lemma get_available_moves_cases:
  "get_available_moves g (Some s) = [NO_MOVE] \<or>
   get_available_moves g (Some s) = filter (\<lambda>c. 0 < count_empty (column s (nat c))) [0..6]"
  by (simp add: get_available_moves_def arg_state_def)

lemma not_all_nonempty_cell:
  assumes "wf_board s" and "\<not> all_nonempty s"
  shows "\<exists>r<6. \<exists>c<7. s ! r ! c = EMPTY"
proof -
  from assms(2) obtain row where row: "row \<in> set s" "\<not> list_all (\<lambda>x. x \<noteq> EMPTY) row"
    by (auto simp: all_nonempty_def list_all_iff)
  then obtain r where r: "r < length s" "s ! r = row" by (auto simp: in_set_conv_nth)
  from row(2) obtain c where c: "c < length row" "row ! c = EMPTY"
    by (auto simp: list_all_iff in_set_conv_nth)
  from r c assms(1) have "r < 6" "c < 7" "s ! r ! c = EMPTY"
    by (auto simp: wf_board_length wf_board_rows)
  then show ?thesis by blast
qed

lemma get_available_moves_nonempty:
  assumes "wf_board s"
  shows "get_available_moves g (Some s) \<noteq> []"
proof (cases "check_winner g (Some s) = W_None")
  case True
  then have "\<not> all_nonempty s" by (rule check_winner_None_not_full)
  with assms obtain r c where rc: "r < 6" "c < 7" "s ! r ! c = EMPTY"
    using not_all_nonempty_cell by blast
  then have "0 < count_empty (column s c)"
    using assms by (auto simp: count_empty_pos EMPTY_in_column wf_board_length)
  moreover from rc have "int c \<in> set [0..6]" by simp
  ultimately have "int c \<in> set (filter (\<lambda>c. 0 < count_empty (column s (nat c))) [0..6])"
    by simp
  then have "filter (\<lambda>c. 0 < count_empty (column s (nat c))) [0..6] \<noteq> []"
    by (metis empty_iff list.set(1))
  with True show ?thesis by (simp only: get_available_moves_undecided not_False_eq_True)
next
  case False
  then show ?thesis by (simp add: get_available_moves_decided)
qed

lemma available_tags_parallel:
  "sorted_wrt parallel (map (\<lambda>m. p @ move_tag m) (get_available_moves g (Some s)))"
proof -
  let ?cols = "filter (\<lambda>c. 0 < count_empty (column s (nat c))) [0..6]"
  have "sorted_wrt (<) ?cols" by (rule sorted_wrt_filter) simp
  then have "sorted_wrt (\<lambda>a b. p @ move_tag a \<parallel> p @ move_tag b) ?cols"
    by (rule sorted_wrt_mono_rel[rotated]) (auto intro: tags_parallel)
  then have "sorted_wrt parallel (map (\<lambda>m. p @ move_tag m) ?cols)"
    by (simp add: sorted_wrt_map)
  with get_available_moves_cases[of g s] show ?thesis by auto
qed

lemma insert_available:
  assumes wf: "wf_board s" and pl: "pl = player1 g \<or> pl = player2 g"
    and m: "m \<in> set (get_available_moves g (Some s))"
  shows "insert_piece g pl m (Some s) = Inr (spec_play g pl m s) \<and> wf_board (spec_play g pl m s)"
proof -
  from pl obtain v where v: "name2val g pl = Some v" using name2val_players by blast
  have "\<exists>s'. insert_piece g pl m (Some s) = Inr s'"
  proof (cases "m = NO_MOVE")
    case True
    then show ?thesis by (simp add: insert_piece_def)
  next
    case False
    with m get_available_moves_cases[of g s]
    have "m \<in> set (filter (\<lambda>c. 0 < count_empty (column s (nat c))) [0..6])" by auto
    then have "0 \<le> m" "m < 7" "0 < count_empty (column s (nat m))" by auto
    with wf v show ?thesis by (simp add: insert_piece_in_range)
  qed
  then obtain s' where s': "insert_piece g pl m (Some s) = Inr s'" by blast
  then have "spec_play g pl m s = s'" by (simp add: spec_play_def)
  with s' insert_piece_wf[OF wf s'] show ?thesis by simp
qed

subsection \<open>One ply\<close>

lemma comprehension_Inr: "comprehension (map Inr xs) = Inr xs"
  by (induction xs) simp_all

lemma row_tag_simp [simp]: "row_tag (q, p, s) = p"
  by (simp add: row_tag_def)

lemma row_state_simp [simp]: "row_state (q, p, s) = s"
  by (simp add: row_state_def)

lemma good_rows_wf: "good_rows rows \<Longrightarrow> r \<in> set rows \<Longrightarrow> wf_board (row_state r)"
  by (simp add: good_rows_def list_all_iff)

lemma children_nonempty: "wf_board (row_state r) \<Longrightarrow> children g pl r \<noteq> []"
  by (simp add: children_def get_available_moves_nonempty)

lemma children_tags_parallel: "sorted_wrt parallel (map row_tag (children g pl r))"
  using available_tags_parallel[of "row_tag r" g "row_state r"]
  by (simp add: children_def comp_def)

lemma children_tag_extends:
  "c \<in> set (children g pl r) \<Longrightarrow> \<exists>t. row_tag c = row_tag r @ t"
  by (auto simp: children_def)

lemma children_parallel_across:
  assumes "row_tag r \<parallel> row_tag r'" "c \<in> set (children g pl r)" "c' \<in> set (children g pl r')"
  shows "row_tag c \<parallel> row_tag c'"
  using assms children_tag_extends[of c g pl r] children_tag_extends[of c' g pl r']
  by (auto intro: parallel_append)

lemma concat_children_parallel:
  "sorted_wrt parallel (map row_tag rows)
     \<Longrightarrow> sorted_wrt parallel (map row_tag (concat (map (children g pl) rows)))"
proof (induction rows)
  case Nil
  then show ?case by simp
next
  case (Cons r rows)
  have "row_tag c \<parallel> row_tag c'"
    if "c \<in> set (children g pl r)" "c' \<in> set (concat (map (children g pl) rows))" for c c'
  proof -
    from that(2) obtain r' where r': "r' \<in> set rows" "c' \<in> set (children g pl r')" by auto
    with Cons.prems have "row_tag r \<parallel> row_tag r'" by auto
    from children_parallel_across[OF this that(1) r'(2)] show ?thesis .
  qed
  then have cross: "\<forall>x\<in>set (map row_tag (children g pl r)).
      \<forall>y\<in>set (map row_tag (concat (map (children g pl) rows))). x \<parallel> y"
    by (metis (no_types, lifting) imageE list.set_map)
  from Cons have rest: "sorted_wrt parallel (map row_tag (concat (map (children g pl) rows)))"
    by simp
  have "map row_tag (concat (map (children g pl) (r # rows)))
          = map row_tag (children g pl r) @ map row_tag (concat (map (children g pl) rows))"
    by simp
  with cross rest children_tags_parallel[of g pl r] show ?case
    by (simp only: sorted_wrt_append)
qed

lemma children_wf:
  assumes "wf_board (row_state r)" "pl = player1 g \<or> pl = player2 g" "c \<in> set (children g pl r)"
  shows "wf_board (row_state c)"
  using assms insert_available[of "row_state r" pl g]
  by (auto simp: children_def)

lemma good_rows_children:
  assumes "good_rows rows" and "pl = player1 g \<or> pl = player2 g"
  shows "good_rows (concat (map (children g pl) rows))"
proof -
  from assms(1) obtain r where r: "r \<in> set rows" by (cases rows) (auto simp: good_rows_def)
  with assms(1) have "children g pl r \<noteq> []"
    by (simp add: children_nonempty good_rows_wf)
  with r have ne: "concat (map (children g pl) rows) \<noteq> []" by auto
  have wf: "list_all (\<lambda>r. wf_board (row_state r)) (concat (map (children g pl) rows))"
    using assms by (auto simp: list_all_iff intro: children_wf good_rows_wf)
  from assms(1) have "sorted_wrt parallel (map row_tag rows)" by (simp add: good_rows_def)
  then have "sorted_wrt parallel (map row_tag (concat (map (children g pl) rows)))"
    by (rule concat_children_parallel)
  with ne wf show ?thesis by (simp add: good_rows_def)
qed

lemma ply_children:
  assumes "good_rows rows" and pl: "pl = player1 g \<or> pl = player2 g"
  shows "ply g pl rows = Inr (concat (map (children g pl) rows))"
proof -
  have row: "(case r of (_, prev_move, temp_state) \<Rightarrow>
               map (\<lambda>move. ebind (insert_piece g pl move (Some temp_state))
                              (\<lambda>st'. Inr (prev_move, prev_move @ move_tag move, st')))
                   (get_available_moves g (Some temp_state)))
             = map Inr (children g pl r)" if "r \<in> set rows" for r
  proof -
    obtain q p s where r: "r = (q, p, s)" by (cases r) auto
    with that assms(1) have wf: "wf_board s" using good_rows_wf by fastforce
    have "ebind (insert_piece g pl m (Some s)) (\<lambda>st'. Inr (p, p @ move_tag m, st'))
            = Inr (p, p @ move_tag m, spec_play g pl m s)"
      if "m \<in> set (get_available_moves g (Some s))" for m
      using insert_available[OF wf pl that] by (simp add: ebind_def)
    then show ?thesis by (simp add: r children_def)
  qed
  have "concat (map (\<lambda>(_, prev_move, temp_state).
               map (\<lambda>move. ebind (insert_piece g pl move (Some temp_state))
                              (\<lambda>st'. Inr (prev_move, prev_move @ move_tag move, st')))
                   (get_available_moves g (Some temp_state))) rows)
        = concat (map (\<lambda>r. map Inr (children g pl r)) rows)"
    by (rule arg_cong[where f = concat], rule map_cong) (simp_all add: row)
  also have "\<dots> = map Inr (concat (map (children g pl) rows))"
    by (simp add: map_concat comp_def)
  finally have eq: "concat (map (\<lambda>(_, prev_move, temp_state).
               map (\<lambda>move. ebind (insert_piece g pl move (Some temp_state))
                              (\<lambda>st'. Inr (prev_move, prev_move @ move_tag move, st')))
                   (get_available_moves g (Some temp_state))) rows)
        = map Inr (concat (map (children g pl) rows))" .
  from assms(1) have ne: "rows \<noteq> []" by (simp add: good_rows_def)
  from good_rows_children[OF assms] have ne': "concat (map (children g pl) rows) \<noteq> []"
    by (simp add: good_rows_def)
  show ?thesis
    unfolding ply_def eq comprehension_Inr using ne ne' by (simp add: ebind_def)
qed

subsection \<open>Reducing one level\<close>

lemma sorted_wrt_parallel_distinct: "sorted_wrt parallel xs \<Longrightarrow> distinct xs"
proof (induction xs)
  case Nil
  then show ?case by simp
next
  case (Cons x xs)
  have "x \<notin> set xs"
  proof
    assume "x \<in> set xs"
    with Cons.prems have "x \<parallel> x" by simp
    then show False by (simp add: parallel_def)
  qed
  with Cons show ?case by simp
qed

lemma opponent_is_player:
  "nm = player1 g \<or> nm = player2 g
     \<Longrightarrow> get_opponent_name g nm = player1 g \<or> get_opponent_name g nm = player2 g"
  by (auto simp: get_opponent_name_def)

lemma groupby_children:
  assumes "good_rows rows" and "pl = player1 g \<or> pl = player2 g"
  shows "groupby_np (map (\<lambda>r. val (row_state r)) (concat (map (children g pl) rows)))
           (map fst (concat (map (children g pl) rows))) uf
         = Inr (map (\<lambda>r. reduce uf (map (\<lambda>m. val (spec_play g pl m (row_state r)))
                                       (get_available_moves g (Some (row_state r))))) rows)"
proof -
  let ?f = "\<lambda>r. map (\<lambda>m. val (spec_play g pl m (row_state r)))
                   (get_available_moves g (Some (row_state r)))"
  have vals: "map (\<lambda>r. val (row_state r)) (concat (map (children g pl) rows))
                = concat (map ?f rows)"
    by (simp add: map_concat comp_def children_def)
  have tags: "map fst (concat (map (children g pl) rows))
                = concat (map (\<lambda>r. replicate (length (?f r)) (row_tag r)) rows)"
    by (simp add: map_concat comp_def children_def map_replicate_const)
  from assms(1) have d: "distinct (map row_tag rows)"
    by (simp add: good_rows_def sorted_wrt_parallel_distinct)
  have ne: "\<forall>r\<in>set rows. ?f r \<noteq> []"
    using assms(1) by (simp add: good_rows_wf get_available_moves_nonempty)
  show ?thesis unfolding vals tags by (rule groupby_np_blocks[OF d ne])
qed

lemma opp_min_level:
  assumes "good_rows rows" and "name ag = player1 g \<or> name ag = player2 g"
  shows "groupby_np
           (map (\<lambda>r. val (row_state r))
              (concat (map (children g (get_opponent_name g (name ag))) rows)))
           (map fst (concat (map (children g (get_opponent_name g (name ag))) rows))) min
         = Inr (map (\<lambda>r. spec_opp_min g ag val (row_state r)) rows)"
proof -
  have "reduce min (map (\<lambda>m. val (spec_play g (get_opponent_name g (name ag)) m (row_state r)))
                      (get_available_moves g (Some (row_state r))))
          = spec_opp_min g ag val (row_state r)" if "r \<in> set rows" for r
  proof -
    from that assms(1) have "get_available_moves g (Some (row_state r)) \<noteq> []"
      by (simp add: good_rows_wf get_available_moves_nonempty)
    then show ?thesis by (simp add: reduce_min spec_opp_min_def)
  qed
  then have "map (\<lambda>r. reduce min (map (\<lambda>m. val (spec_play g (get_opponent_name g (name ag)) m
                                                   (row_state r)))
                      (get_available_moves g (Some (row_state r))))) rows
          = map (\<lambda>r. spec_opp_min g ag val (row_state r)) rows"
    by (intro map_cong refl)
  with groupby_children[OF assms(1) opponent_is_player[OF assms(2)], of val min]
  show ?thesis by simp
qed

lemma self_max_level:
  assumes "good_rows rows" and "name ag = player1 g \<or> name ag = player2 g"
  shows "groupby_np
           (map (\<lambda>r. val (row_state r)) (concat (map (children g (name ag)) rows)))
           (map fst (concat (map (children g (name ag)) rows))) max
         = Inr (map (\<lambda>r. spec_self_max g ag val (row_state r)) rows)"
proof -
  have "reduce max (map (\<lambda>m. val (spec_play g (name ag) m (row_state r)))
                      (get_available_moves g (Some (row_state r))))
          = spec_self_max g ag val (row_state r)" if "r \<in> set rows" for r
  proof -
    from that assms(1) have "get_available_moves g (Some (row_state r)) \<noteq> []"
      by (simp add: good_rows_wf get_available_moves_nonempty)
    then show ?thesis by (simp add: reduce_max spec_self_max_def)
  qed
  then have "map (\<lambda>r. reduce max (map (\<lambda>m. val (spec_play g (name ag) m (row_state r)))
                      (get_available_moves g (Some (row_state r))))) rows
          = map (\<lambda>r. spec_self_max g ag val (row_state r)) rows"
    by (intro map_cong refl)
  with groupby_children[OF assms, of val max]
  show ?thesis by simp
qed

subsection \<open>The two loops\<close>

lemma reduce_loop_append:
  "k \<le> length si \<Longrightarrow> k \<le> length oi
     \<Longrightarrow> reduce_loop k v (si @ a) (oi @ b) = reduce_loop k v si oi"
  by (induction k arbitrary: v) (simp_all add: nth_append)

lemma row_state_fun: "(\<lambda>(_, _, s). s) = row_state"
  by (auto simp: row_state_def fun_eq_iff)

lemma ebind_Inr [simp]: "ebind (Inr v) f = f v"
  by (simp add: ebind_def)

text \<open>
  Expanding \<open>n\<close> more round trips from a level at which the agent is to move, scoring the
  leaves and reducing back to that level gives every node of the level its minimax value.
\<close>

lemma expand_reduce:
  assumes pl: "name ag = player1 g \<or> name ag = player2 g"
  shows "good_rows rows \<Longrightarrow> length oi = Suc (length si) \<Longrightarrow> last oi = map fst rows \<Longrightarrow>
     ebind (expand_loop g (name ag) (get_opponent_name g (name ag)) n rows si oi)
       (\<lambda>(rows_f, si', oi').
           ebind (groupby_np (leaf_values g ag (map (\<lambda>(_, _, s). s) rows_f)) (last oi') min)
             (\<lambda>v. reduce_loop (length si + n) v si' oi'))
     = ebind (groupby_np (map (\<lambda>r. spec_minimax g ag n (row_state r)) rows) (last oi) min)
         (\<lambda>v. reduce_loop (length si) v si oi)"
proof (induction n arbitrary: rows si oi)
  case 0
  then show ?case
    by (simp add: leaf_values_map row_state_fun comp_def)
next
  case (Suc n)
  let ?me = "name ag" and ?opp = "get_opponent_name g (name ag)"
  let ?R1 = "concat (map (children g ?me) rows)"
  let ?R2 = "concat (map (children g ?opp) ?R1)"
  let ?si = "si @ [map fst ?R1]" and ?oi = "oi @ [map fst ?R2]"
  note opp = opponent_is_player[OF pl]
  have g1: "good_rows ?R1" using Suc.prems(1) pl by (rule good_rows_children)
  have g2: "good_rows ?R2" using g1 opp by (rule good_rows_children)
  have p1: "ply g ?me rows = Inr ?R1" using Suc.prems(1) pl by (rule ply_children)
  have p2: "ply g ?opp ?R1 = Inr ?R2" using g1 opp by (rule ply_children)
  have ex: "expand_loop g ?me ?opp (Suc n) rows si oi = expand_loop g ?me ?opp n ?R2 ?si ?oi"
    by (simp add: p1 p2)
  have len: "length ?oi = Suc (length ?si)" using Suc.prems(2) by simp
  have lst: "last ?oi = map fst ?R2" by simp
  have IH: "ebind (expand_loop g ?me ?opp n ?R2 ?si ?oi)
       (\<lambda>(rows_f, si', oi').
           ebind (groupby_np (leaf_values g ag (map (\<lambda>(_, _, s). s) rows_f)) (last oi') min)
             (\<lambda>v. reduce_loop (length si + Suc n) v si' oi'))
     = ebind (groupby_np (map (\<lambda>r. spec_minimax g ag n (row_state r)) ?R2) (map fst ?R2) min)
         (\<lambda>v. reduce_loop (Suc (length si)) v ?si ?oi)"
    using Suc.IH[OF g2 len lst] by simp
  have lvl_opp: "groupby_np (map (\<lambda>r. spec_minimax g ag n (row_state r)) ?R2) (map fst ?R2) min
      = Inr (map (\<lambda>r. spec_opp_min g ag (spec_minimax g ag n) (row_state r)) ?R1)"
    using g1 pl by (rule opp_min_level)
  have lvl_self:
    "groupby_np (map (\<lambda>r. spec_opp_min g ag (spec_minimax g ag n) (row_state r)) ?R1)
        (map fst ?R1) max
      = Inr (map (\<lambda>r. spec_minimax g ag (Suc n) (row_state r)) rows)"
    using self_max_level[OF Suc.prems(1) pl, of "spec_opp_min g ag (spec_minimax g ag n)"]
    by simp
  have si_k: "?si ! length si = map fst ?R1" by simp
  have oi_k: "?oi ! length si = last oi"
  proof -
    from Suc.prems(2) have "oi \<noteq> []" by auto
    then have "last oi = oi ! (length oi - 1)" by (rule last_conv_nth)
    with Suc.prems(2) show ?thesis by (simp add: nth_append)
  qed
  have rl: "reduce_loop (length si) v ?si ?oi = reduce_loop (length si) v si oi" for v
    using Suc.prems(2) by (intro reduce_loop_append) simp_all
  have "ebind (groupby_np (map (\<lambda>r. spec_minimax g ag n (row_state r)) ?R2) (map fst ?R2) min)
         (\<lambda>v. reduce_loop (Suc (length si)) v ?si ?oi)
      = ebind (groupby_np (map (\<lambda>r. spec_minimax g ag (Suc n) (row_state r)) rows) (last oi) min)
         (\<lambda>v. reduce_loop (length si) v si oi)"
    unfolding lvl_opp ebind_Inr reduce_loop.simps si_k oi_k lvl_self rl ..
  with IH ex show ?case by simp
qed

subsection \<open>The first ply\<close>

lemma insert_column:
  assumes wf: "wf_board s" and pl: "pl = player1 g \<or> pl = player2 g"
    and m: "0 \<le> m" "m < 7" "EMPTY \<in> set (column s (nat m))"
  shows "insert_piece g pl m (Some s) = Inr (spec_play g pl m s) \<and> wf_board (spec_play g pl m s)"
proof -
  from pl obtain v where v: "name2val g pl = Some v" using name2val_players by blast
  from m(3) have "0 < count_empty (column s (nat m))" by (simp add: count_empty_pos)
  with wf v m(1,2) obtain s' where s': "insert_piece g pl m (Some s) = Inr s'"
    by (simp add: insert_piece_in_range)
  then have "spec_play g pl m s = s'" by (simp add: spec_play_def)
  with s' insert_piece_wf[OF wf s'] show ?thesis by simp
qed

lemma comprehension_map_Inr:
  "\<forall>x\<in>set xs. f x = Inr (h x) \<Longrightarrow> comprehension (map f xs) = Inr (map h xs)"
  by (induction xs) simp_all

lemma distinct_sorted_wrt:
  "distinct xs \<Longrightarrow> (\<And>x y. x \<in> set xs \<Longrightarrow> y \<in> set xs \<Longrightarrow> x \<noteq> y \<Longrightarrow> P x y) \<Longrightarrow> sorted_wrt P xs"
  by (induction xs) auto

lemma first_ply_rows:
  assumes wf: "wf_board st" and pl: "pl = player1 g \<or> pl = player2 g"
    and ne: "moves \<noteq> []" and d: "distinct moves"
    and legal: "\<forall>m\<in>set moves. 0 \<le> m \<and> m < 7 \<and> EMPTY \<in> set (column st (nat m))"
  shows "first_ply g pl st moves = Inr (map (\<lambda>m. ([], str_int m, spec_play g pl m st)) moves)"
    and "good_rows (map (\<lambda>m. ([], str_int m, spec_play g pl m st)) moves)"
proof -
  have ok: "insert_piece g pl m (Some st) = Inr (spec_play g pl m st) \<and>
            wf_board (spec_play g pl m st)" if "m \<in> set moves" for m
    using that legal insert_column[OF wf pl, of m] by blast
  then show "first_ply g pl st moves = Inr (map (\<lambda>m. ([], str_int m, spec_play g pl m st)) moves)"
    unfolding first_ply_def by (intro comprehension_map_Inr) simp
  have "str_int a \<parallel> str_int b" if "a \<in> set moves" "b \<in> set moves" "a \<noteq> b" for a b
  proof -
    from that legal have r: "0 \<le> a" "a < 7" "0 \<le> b" "b < 7" by auto
    from tags_parallel[OF r that(3), of "[]"] r show ?thesis
      by (simp add: move_tag_def NO_MOVE_negative)
  qed
  with d have "sorted_wrt (\<lambda>a b. str_int a \<parallel> str_int b) moves"
    by (intro distinct_sorted_wrt)
  then have "sorted_wrt parallel (map str_int moves)" by (simp add: sorted_wrt_map)
  with ne ok show "good_rows (map (\<lambda>m. ([], str_int m, spec_play g pl m st)) moves)"
    by (simp add: good_rows_def list_all_iff comp_def)
qed

section \<open>\<^verbatim>\<open>calc_move_values\<close> computes the minimax values\<close>

text \<open>
  Claim C1. Let the board be a 6x7 board, the agent one of the two players of its game, the
  lookahead depth \<^verbatim>\<open>iteration\<close> a number \<open>d\<close> of at least 1, and the moves a non-empty list
  of different columns from 0 to 6 that each have an empty cell. Then \<^verbatim>\<open>calc_move_values\<close>
  raises nothing and returns one value per move, in the order of the moves: the minimax
  value of the move, the minimum over the opponent's replies of the maximum over the agent's
  moves, and so on down to the scores of the leaves \<open>d\<close> round trips deep.
\<close>

theorem calc_move_values_minimax:
  assumes "wf_board st"
    and "name ag = player1 g \<or> name ag = player2 g"
    and "iteration ag = int d" and "1 \<le> d"
    and "moves \<noteq> []" and "distinct moves"
    and "\<forall>m\<in>set moves. 0 \<le> m \<and> m < 7 \<and> EMPTY \<in> set (column st (nat m))"
  shows "calc_move_values ag (VierGewinnt g) st moves = Inr (map (spec_move_value g ag d st) moves)"
proof -
  let ?me = "name ag" and ?opp = "get_opponent_name g (name ag)"
  let ?R0 = "map (\<lambda>m. ([], str_int m, spec_play g ?me m st)) moves"
  let ?R1 = "concat (map (children g ?opp) ?R0)"
  note opp = opponent_is_player[OF assms(2)]
  have f: "first_ply g ?me st moves = Inr ?R0" and g0: "good_rows ?R0"
    using first_ply_rows[OF assms(1,2,5,6,7)] by simp_all
  have g1: "good_rows ?R1" using g0 opp by (rule good_rows_children)
  have p1: "ply g ?opp ?R0 = Inr ?R1" using g0 opp by (rule ply_children)
  have n: "nat (iteration ag - 1) = d - 1" using assms(3) by simp
  have "ebind (expand_loop g ?me ?opp (d - 1) ?R1 [] [map fst ?R1])
       (\<lambda>(rows_f, si', oi').
           ebind (groupby_np (leaf_values g ag (map (\<lambda>(_, _, s). s) rows_f)) (last oi') min)
             (\<lambda>v. reduce_loop (d - 1) v si' oi'))
     = ebind (groupby_np (map (\<lambda>r. spec_minimax g ag (d - 1) (row_state r)) ?R1)
                (map fst ?R1) min)
         (\<lambda>v. reduce_loop 0 v [] [map fst ?R1])"
    using expand_reduce[OF assms(2) g1, of "[map fst ?R1]" "[]" "d - 1"] by simp
  also have "\<dots> = Inr (map (\<lambda>r. spec_opp_min g ag (spec_minimax g ag (d - 1)) (row_state r)) ?R0)"
    using opp_min_level[OF g0 assms(2), of "spec_minimax g ag (d - 1)"] by simp
  also have "\<dots> = Inr (map (spec_move_value g ag d st) moves)"
    by (simp add: spec_move_value_def comp_def)
  finally show ?thesis
    by (simp add: calc_move_values_def f p1 n)
qed

text \<open>
  On \<open>board_race\<close> both players have three pieces in a column of their own and the columns
  0 and 1 are the only ones left. Column 0 wins at once. After column 1 the opponent has to
  take column 0, and two round trips deep every line ends in a draw on the full board; one
  round trip deep the line is cut at an open board and the value model is asked.
\<close>

lemma board_race_moves:
  "wf_board board_race"
  "\<forall>m\<in>set [0, 1]. 0 \<le> m \<and> m < 7 \<and> EMPTY \<in> set (column board_race (nat m))"
  "\<forall>m\<in>set [1, 0]. 0 \<le> m \<and> m < 7 \<and> EMPTY \<in> set (column board_race (nat m))"
  by (simp_all add: wf_board_def board_race_def column_def EMPTY_def)

lemma board_race_values:
  "map (spec_move_value game_AB agent_A2 2 board_race) [0, 1] = [1, 1 / 2]"
  "map (spec_move_value game_AB agent_A2 2 board_race) [1, 0] = [1 / 2, 1]"
  "map (spec_move_value game_AB agent_A 1 board_race) [0, 1] = [1, 1 / 100]"
  by code_simp+

theorem calc_move_values_minimax_witness:
  "calc_move_values agent_A2 (VierGewinnt game_AB) board_race [0, 1] = Inr [1, 1 / 2] \<and>
   calc_move_values agent_A2 (VierGewinnt game_AB) board_race [1, 0] = Inr [1 / 2, 1] \<and>
   calc_move_values agent_A (VierGewinnt game_AB) board_race [0, 1] = Inr [1, 1 / 100]"
proof -
  have pl: "name agent_A2 = player1 game_AB \<or> name agent_A2 = player2 game_AB"
    "name agent_A = player1 game_AB \<or> name agent_A = player2 game_AB"
    by (simp_all add: agent_A2_def agent_A_def game_AB_def)
  have it: "iteration agent_A2 = int 2" "iteration agent_A = int 1"
    by (simp_all add: agent_A2_def agent_A_def)
  have a: "calc_move_values agent_A2 (VierGewinnt game_AB) board_race [0, 1]
             = Inr (map (spec_move_value game_AB agent_A2 2 board_race) [0, 1])"
    using board_race_moves(1) pl(1) it(1) _ _ _ board_race_moves(2)
    by (rule calc_move_values_minimax) simp_all
  have b: "calc_move_values agent_A2 (VierGewinnt game_AB) board_race [1, 0]
             = Inr (map (spec_move_value game_AB agent_A2 2 board_race) [1, 0])"
    using board_race_moves(1) pl(1) it(1) _ _ _ board_race_moves(3)
    by (rule calc_move_values_minimax) simp_all
  have c: "calc_move_values agent_A (VierGewinnt game_AB) board_race [0, 1]
             = Inr (map (spec_move_value game_AB agent_A 1 board_race) [0, 1])"
    using board_race_moves(1) pl(2) it(2) _ _ _ board_race_moves(2)
    by (rule calc_move_values_minimax) simp_all
  from a b c show ?thesis
    by (simp only: board_race_values simp_thms)
qed

end
